theory Spec2Isabelle
  imports Main "HOL-Library.AList" "HOL-Library.Char_ord" "HOL-Library.List_Lexorder"
begin

section \<open>Data model of \<open>xbet_scraper.py\<close>\<close>

text \<open>
  A match is a Python \<open>dict\<close> from field names to values. The parsers store strings,
  one list of strings (\<open>scores\<close>), booleans (\<open>has_video\<close>, \<open>has_statistics\<close>) and
  \<open>None\<close> (\<open>match_date\<close> before the first date header). A dict keeps its keys in insertion
  order, which is the order of \<open>items()\<close> and of the JSON document, so a dict is an
  association list; \<open>d[k] = v\<close> replaces the value in place when \<open>k\<close> is there and appends
  the pair otherwise, which is \<open>AList.update\<close>.
\<close>

datatype pyval = PStr string | PList "string list" | PBool bool | PNone

type_synonym pydict = "(string \<times> pyval) list"

datatype py_error = KeyError | TypeError

definition is_dict :: "pydict \<Rightarrow> bool" where
  "is_dict d = distinct (map fst d)"

definition has_key :: "pydict \<Rightarrow> string \<Rightarrow> bool" where
  "has_key d k = (map_of d k \<noteq> None)"

definition set_item :: "pydict \<Rightarrow> string \<Rightarrow> pyval \<Rightarrow> pydict" where
  "set_item d k v = AList.update k v d"

definition startswith :: "string \<Rightarrow> string \<Rightarrow> bool" where
  "startswith s p = (take (length p) s = p)"

section \<open>Merging a new record into a stored match: \<open>update_match_odds\<close>\<close>

text \<open>
  \<open>key not in existing_match or existing_match[key] != value\<close> is
  \<open>map_of existing_match key \<noteq> Some value\<close>. The function mutates \<open>existing_match\<close> and
  returns \<open>odds_changed\<close>; the model returns the mutated dict with the flag.
  \<open>new_match['timestamp']\<close> raises \<open>KeyError\<close> when the new record has no time stamp, before
  anything is written.
\<close>

definition handled_keys :: "string list" where
  "handled_keys = [''timestamp'', ''score'', ''scores'', ''status'', ''match_id'']"

text \<open>The loop \<open>for key, value in new_match.items()\<close> of lines 665 to 678.\<close>

fun update_other_fields :: "pydict \<Rightarrow> pydict \<times> bool \<Rightarrow> pydict \<times> bool" where
  "update_other_fields [] (existing_match, odds_changed) = (existing_match, odds_changed)"
| "update_other_fields ((key, v) # items) (existing_match, odds_changed) =
     update_other_fields items
       (if key \<in> set handled_keys then (existing_match, odds_changed)
        else if startswith key ''odd_'' then
          (if map_of existing_match key \<noteq> Some v
           then (set_item existing_match key v, True)
           else (existing_match, odds_changed))
        else if map_of existing_match key \<noteq> Some v
          then (set_item existing_match key v, odds_changed)
          else (existing_match, odds_changed))"

definition update_match_odds :: "pydict \<Rightarrow> pydict \<Rightarrow> py_error + (pydict \<times> bool)" where
  "update_match_odds existing_match new_match =
     (case map_of new_match ''timestamp'' of
        None \<Rightarrow> Inl KeyError
      | Some ts \<Rightarrow>
          let e0 = set_item existing_match ''timestamp'' ts;
              (e1, c1) =
                (case map_of new_match ''score'' of
                   None \<Rightarrow> (e0, False)
                 | Some sc \<Rightarrow>
                     if map_of e0 ''score'' \<noteq> Some sc
                     then (set_item e0 ''score'' sc, True) else (e0, False));
              e2 =
                (case map_of new_match ''scores'' of
                   None \<Rightarrow> e1
                 | Some ss \<Rightarrow>
                     if map_of e1 ''scores'' \<noteq> Some ss
                     then set_item e1 ''scores'' ss else e1);
              (e3, c3) =
                (case map_of new_match ''status'' of
                   None \<Rightarrow> (e2, c1)
                 | Some st \<Rightarrow>
                     if map_of e2 ''status'' \<noteq> Some st
                     then (set_item e2 ''status'' st, True) else (e2, c1))
          in Inr (update_other_fields new_match (e3, c3)))"

text \<open>
  The fields whose change makes \<open>update_match_odds\<close> return \<open>True\<close>, and the identity fields
  of a match.
\<close>

definition tracked_field :: "string \<Rightarrow> bool" where
  "tracked_field k = (k = ''score'' \<or> k = ''status'' \<or> startswith k ''odd_'')"

definition identity_fields :: "string list" where
  "identity_fields = [''sport'', ''country'', ''league'', ''team1'', ''team2'']"

section \<open>Reconciling a parsed list with the stored list\<close>

text \<open>
  The update loop of \<open>run_continuous_updates\<close>, lines 894 to 928, for one of the two
  collections (\<open>self.live_events\<close> with \<open>live_map\<close>, \<open>new_live_matches\<close> and
  \<open>changed_live_matches\<close>; the loop for the upcoming events is the same text).

  \<open>live_map\<close> maps a match id to the stored dict object with that id; the object is a
  position in the stored list, since the loop only appends to the list. The dict
  comprehension goes through the list from the front, so for an id that occurs twice the
  later position stays. A list is not hashable: as a dict key, and in \<open>match_id in live_map\<close>,
  it raises \<open>TypeError\<close>. \<open>update_match_odds\<close> mutates the stored object: position \<open>i\<close> of the
  list is replaced. \<open>changed_matches\<close> holds the positions of the objects appended to
  \<open>changed_live_matches\<close>. A new match is appended to the stored list and is not entered into
  \<open>live_map\<close>. The parsed records are fresh dicts, so none of them is a stored object.
  When an exception leaves the loop, what was written so far stays written: the error comes
  with the state reached. Every position that \<open>live_map\<close> holds is a position of the stored
  list (\<open>index_map_ok\<close> below), so \<open>events st ! i\<close> reads a stored match.
\<close>

fun hashable :: "pyval \<Rightarrow> bool" where
  "hashable (PList xs) = False"
| "hashable v = True"

fun build_map :: "nat \<Rightarrow> pydict list \<Rightarrow> (pyval \<rightharpoonup> nat) \<Rightarrow> py_error + (pyval \<rightharpoonup> nat)" where
  "build_map i [] live_map = Inr live_map"
| "build_map i (m # ms) live_map =
     (case map_of m ''match_id'' of
        None \<Rightarrow> build_map (Suc i) ms live_map
      | Some match_id \<Rightarrow>
          if hashable match_id then build_map (Suc i) ms (live_map(match_id \<mapsto> i))
          else Inl TypeError)"

record reconcile_state =
  events :: "pydict list"
  new_matches :: "pydict list"
  changed_matches :: "nat list"

fun update_events ::
  "(pyval \<rightharpoonup> nat) \<Rightarrow> pydict list \<Rightarrow> reconcile_state
   \<Rightarrow> (py_error \<times> reconcile_state) + reconcile_state" where
  "update_events live_map [] st = Inr st"
| "update_events live_map (new_match # rest) st =
     (case map_of new_match ''match_id'' of
        None \<Rightarrow> update_events live_map rest st
      | Some match_id \<Rightarrow>
          if \<not> hashable match_id then Inl (TypeError, st)
          else
            (case live_map match_id of
               Some i \<Rightarrow>
                 (case update_match_odds (events st ! i) new_match of
                    Inl e \<Rightarrow> Inl (e, st)
                  | Inr (merged, odds_changed) \<Rightarrow>
                      update_events live_map rest
                        (st\<lparr>events := (events st)[i := merged],
                            changed_matches :=
                              (if odds_changed then changed_matches st @ [i]
                               else changed_matches st)\<rparr>))
             | None \<Rightarrow>
                 update_events live_map rest
                   (st\<lparr>events := events st @ [new_match],
                       new_matches := new_matches st @ [new_match]\<rparr>)))"

definition reconcile ::
  "pydict list \<Rightarrow> pydict list \<Rightarrow> (py_error \<times> reconcile_state) + reconcile_state" where
  "reconcile stored parsed =
     (let st0 = \<lparr>events = stored, new_matches = [], changed_matches = []\<rparr>
      in case build_map 0 stored Map.empty of
           Inl e \<Rightarrow> Inl (e, st0)
         | Inr live_map \<Rightarrow> update_events live_map parsed st0)"

text \<open>The ids of the matches of a list, in order; a store holds every id at most once.\<close>

definition match_ids :: "pydict list \<Rightarrow> pyval list" where
  "match_ids ms = List.map_filter (\<lambda>m. map_of m ''match_id'') ms"

definition one_entity_per_id :: "pydict list \<Rightarrow> bool" where
  "one_entity_per_id ms = distinct (match_ids ms)"

section \<open>Match ids: \<open>parse_live_events\<close> and \<open>parse_upcoming_events\<close>\<close>

text \<open>
  What the selectors find in one match element is the input: the stripped texts of the
  \<open>.c-events__team\<close> elements inside \<open>.c-events__teams\<close> (\<open>None\<close> when there is no such
  container), the text of the time element, and the non-empty stripped score cells.
  \<open>live_match_data\<close> and \<open>upcoming_match_data\<close> build \<open>match_data\<close> up to the line that
  stores \<open>match_id\<close>; the lines after it add only keys that start with \<open>odd_\<close>, and
  \<open>match_url\<close>, \<open>has_video\<close>, \<open>has_statistics\<close> and \<open>starts_in\<close>.
  \<open>str_of_nat\<close> is Python's \<open>str\<close> on the non-negative index that \<open>enumerate\<close> gives.
\<close>

record match_element =
  team_texts :: "string list option"
  time_text :: "string option"
  score_texts :: "string list"

fun str_of_nat :: "nat \<Rightarrow> string" where
  "str_of_nat n =
     (if n < 10 then [char_of (48 + n)]
      else str_of_nat (n div 10) @ [char_of (48 + n mod 10)])"

declare str_of_nat.simps [simp del]

fun join_with :: "string \<Rightarrow> string list \<Rightarrow> string" where
  "join_with sep [] = []"
| "join_with sep [x] = x"
| "join_with sep (x # y # ys) = x @ sep @ join_with sep (y # ys)"

definition add_teams :: "match_element \<Rightarrow> pydict \<Rightarrow> pydict" where
  "add_teams el match_data =
     (case team_texts el of
        None \<Rightarrow> match_data
      | Some team_elements \<Rightarrow>
          if length team_elements \<ge> 2
          then set_item (set_item match_data ''team1'' (PStr (team_elements ! 0)))
                 ''team2'' (PStr (team_elements ! 1))
          else match_data)"

text \<open>An f-string field: a string is inserted as it is, the other values as \<open>str\<close> prints them.\<close>

fun format_val :: "pyval \<Rightarrow> string" where
  "format_val (PStr s) = s"
| "format_val (PBool b) = (if b then ''True'' else ''False'')"
| "format_val PNone = ''None''"
| "format_val (PList xs) =
     ''['' @ join_with '', '' (map (\<lambda>x. [CHR 0x27] @ x @ [CHR 0x27]) xs) @ '']''"

definition add_match_id :: "string \<Rightarrow> string \<Rightarrow> nat \<Rightarrow> pydict \<Rightarrow> pydict" where
  "add_match_id sport_name league_name match_index match_data =
     (case (map_of match_data ''team1'', map_of match_data ''team2'') of
        (Some team1, Some team2) \<Rightarrow>
          set_item match_data ''match_id''
            (PStr (sport_name @ ''_'' @ league_name @ ''_'' @ format_val team1 @ ''_''
                   @ format_val team2))
      | _ \<Rightarrow>
          set_item match_data ''match_id''
            (PStr (sport_name @ ''_'' @ league_name @ ''_'' @ str_of_nat match_index)))"

definition live_match_data ::
  "string \<Rightarrow> string \<Rightarrow> string \<Rightarrow> string \<Rightarrow> string \<Rightarrow> match_element \<Rightarrow> nat \<Rightarrow> pydict" where
  "live_match_data sport_name country league_name league_url now el match_index =
     (let d0 = [(''sport'', PStr sport_name), (''country'', PStr country),
                (''league'', PStr league_name), (''league_url'', PStr league_url),
                (''timestamp'', PStr now)];
          d1 = add_teams el d0;
          d2 = (case time_text el of None \<Rightarrow> d1 | Some t \<Rightarrow> set_item d1 ''status'' (PStr t));
          d3 = (if score_texts el \<noteq> []
                then set_item (set_item d2 ''scores'' (PList (score_texts el)))
                       ''score'' (PStr (join_with '' - '' (score_texts el)))
                else d2)
      in add_match_id sport_name league_name match_index d3)"

definition upcoming_match_data ::
  "string \<Rightarrow> string \<Rightarrow> string \<Rightarrow> string \<Rightarrow> string option \<Rightarrow> string \<Rightarrow> match_element \<Rightarrow> nat
   \<Rightarrow> pydict" where
  "upcoming_match_data sport_name country league_name league_url current_date now el item_index =
     (let d0 = [(''sport'', PStr sport_name), (''country'', PStr country),
                (''league'', PStr league_name), (''league_url'', PStr league_url),
                (''match_date'', (case current_date of None \<Rightarrow> PNone | Some d \<Rightarrow> PStr d)),
                (''timestamp'', PStr now)];
          d1 = add_teams el d0;
          d2 = (case time_text el of None \<Rightarrow> d1 | Some t \<Rightarrow> set_item d1 ''start_time'' (PStr t))
      in add_match_id sport_name league_name item_index d2)"

text \<open>The team names of a match element, when it has two.\<close>

definition team_names :: "match_element \<Rightarrow> (string \<times> string) option" where
  "team_names el =
     (case team_texts el of
        Some (a # b # rest) \<Rightarrow> Some (a, b)
      | _ \<Rightarrow> None)"

section \<open>Retention: \<open>cleanup_old_data\<close>\<close>

text \<open>
  The list comprehension keeps a match when it has no \<open>timestamp\<close> or when its time stamp is
  greater than \<open>cutoff_str\<close>; Python compares two strings by code point, position by
  position, which is the lexicographic order of \<open>string\<close>. Comparing a value that is not a
  string with the string \<open>cutoff_str\<close> raises \<open>TypeError\<close>. \<open>cutoff_str\<close>, the formatted time
  48 hours before now, is a parameter. The exception is not caught in \<open>cleanup_old_data\<close>: a
  list that raised is not assigned, and the lists assigned before it stay trimmed. The
  removal of old files at the end of \<open>cleanup_old_data\<close> does not touch the two lists and is
  left out.
\<close>

definition is_recent :: "string \<Rightarrow> pydict \<Rightarrow> py_error + bool" where
  "is_recent cutoff_str m =
     (case map_of m ''timestamp'' of
        None \<Rightarrow> Inr True
      | Some (PStr t) \<Rightarrow> Inr (t > cutoff_str)
      | Some _ \<Rightarrow> Inl TypeError)"

fun trim_events :: "string \<Rightarrow> pydict list \<Rightarrow> py_error + pydict list" where
  "trim_events cutoff_str [] = Inr []"
| "trim_events cutoff_str (m # ms) =
     (case is_recent cutoff_str m of
        Inl e \<Rightarrow> Inl e
      | Inr keep \<Rightarrow>
          (case trim_events cutoff_str ms of
             Inl e \<Rightarrow> Inl e
           | Inr kept \<Rightarrow> Inr (if keep then m # kept else kept)))"

record scraper_state =
  live_events :: "pydict list"
  upcoming_events :: "pydict list"

definition cleanup_old_data :: "string \<Rightarrow> scraper_state \<Rightarrow> scraper_state \<times> py_error option" where
  "cleanup_old_data cutoff_str s =
     (case (if live_events s \<noteq> [] then trim_events cutoff_str (live_events s)
            else Inr (live_events s)) of
        Inl e \<Rightarrow> (s, Some e)
      | Inr live \<Rightarrow>
          let s1 = s\<lparr>live_events := live\<rparr> in
          (case (if upcoming_events s1 \<noteq> [] then trim_events cutoff_str (upcoming_events s1)
                 else Inr (upcoming_events s1)) of
             Inl e \<Rightarrow> (s1, Some e)
           | Inr upcoming \<Rightarrow> (s1\<lparr>upcoming_events := upcoming\<rparr>, None)))"

section \<open>The failure counter of \<open>run_continuous_updates\<close>\<close>

text \<open>
  One pass of the body of the \<open>while self.running\<close> loop ends in one of four ways:
  \<^item> \<open>NoContent\<close>: \<open>get_page_content\<close> returned \<open>None\<close> (lines 872 to 885, ending in
    \<open>continue\<close>); on both paths that return \<open>None\<close> the driver is \<open>None\<close> afterwards;
  \<^item> \<open>RaisedEarly\<close>: an exception left the \<open>try\<close> block before line 888;
  \<^item> \<open>RaisedLate\<close>: the page was fetched, line 888 cleared the counter, and parsing,
    merging or saving raised; the handler of lines 986 to 1003 runs;
  \<^item> \<open>Completed\<close>: the cycle ran to its end.
  \<open>driver\<close> is \<open>True\<close> while \<open>self.driver\<close> holds a browser. \<open>driver_resets\<close> counts the
  executions of the branch that logs "Too many consecutive errors ... Restarting driver"
  and sets \<open>self.driver = None\<close>.
\<close>

datatype cycle_outcome = NoContent | RaisedEarly | RaisedLate | Completed

record loop_state =
  consecutive_errors :: nat
  driver :: bool
  driver_resets :: nat

definition max_consecutive_errors :: nat where
  "max_consecutive_errors = 5"

definition restart_driver :: "loop_state \<Rightarrow> loop_state" where
  "restart_driver s = s\<lparr>driver := False, driver_resets := Suc (driver_resets s)\<rparr>"

definition handle_exception :: "loop_state \<Rightarrow> loop_state" where
  "handle_exception s =
     (let s1 = s\<lparr>consecutive_errors := consecutive_errors s + 1\<rparr>
      in if consecutive_errors s1 \<ge> max_consecutive_errors
         then (restart_driver s1)\<lparr>consecutive_errors := 0\<rparr>
         else s1)"

fun update_cycle :: "cycle_outcome \<Rightarrow> loop_state \<Rightarrow> loop_state" where
  "update_cycle NoContent s =
     (let s1 = s\<lparr>driver := False, consecutive_errors := consecutive_errors s + 1\<rparr>
      in if consecutive_errors s1 \<ge> max_consecutive_errors
         then restart_driver s1
         else s1)"
| "update_cycle RaisedEarly s = handle_exception s"
| "update_cycle RaisedLate s = handle_exception (s\<lparr>driver := True, consecutive_errors := 0\<rparr>)"
| "update_cycle Completed s = s\<lparr>driver := True, consecutive_errors := 0\<rparr>"

text \<open>The first fetch, before the loop: a failure is counted, the threshold is not looked at.\<close>

definition initial_fetch :: "bool \<Rightarrow> loop_state" where
  "initial_fetch got_content =
     \<lparr>consecutive_errors = (if got_content then 0 else 1),
      driver = got_content, driver_resets = 0\<rparr>"

fun run_cycles :: "cycle_outcome list \<Rightarrow> loop_state \<Rightarrow> loop_state" where
  "run_cycles [] s = s"
| "run_cycles (c # cs) s = run_cycles cs (update_cycle c s)"

section \<open>Saving: \<open>save_to_csv\<close> and \<open>save_to_json\<close>\<close>

text \<open>
  The disk is a map from paths to file contents. What pandas' \<open>DataFrame.to_csv\<close> and
  \<open>json.dump\<close> into a file opened with mode \<open>w\<close> do to the disk, a failed write that the
  \<open>except\<close> clause swallows included, belongs to those libraries and is a parameter:
  \<open>df_to_csv data filepath append header\<close> (the flag \<open>append\<close> is \<open>append_mode\<close> below)
  and \<open>json_dump data filepath\<close>.
  \<open>path_join\<close> is \<open>os.path.join\<close> of two components on POSIX.
\<close>

type_synonym disk = "string \<rightharpoonup> string"

definition path_join :: "string \<Rightarrow> string \<Rightarrow> string" where
  "path_join a b =
     (if startswith b ''/'' then b
      else if a = [] \<or> last a = CHR ''/'' then a @ b
      else a @ ''/'' @ b)"

definition save_to_csv ::
  "(pydict list \<Rightarrow> string \<Rightarrow> bool \<Rightarrow> bool \<Rightarrow> disk \<Rightarrow> disk) \<Rightarrow> string \<Rightarrow>
   pydict list \<Rightarrow> string \<Rightarrow> bool \<Rightarrow> disk \<Rightarrow> disk" where
  "save_to_csv df_to_csv data_dir data filename append_mode fs =
     (if data = [] then fs
      else let filepath = path_join data_dir filename;
               header = (\<not> append_mode \<or> fs filepath = None)
           in df_to_csv data filepath append_mode header fs)"

definition save_to_json ::
  "(pydict list \<Rightarrow> string \<Rightarrow> disk \<Rightarrow> disk) \<Rightarrow> string \<Rightarrow>
   pydict list \<Rightarrow> string \<Rightarrow> disk \<Rightarrow> disk" where
  "save_to_json json_dump data_dir data filename fs =
     (if data = [] then fs
      else json_dump data (path_join data_dir filename) fs)"

text \<open>
  The \<open>finally\<close> block of \<open>run_continuous_updates\<close>: the four final files, named with the
  time stamp of the shutdown.
\<close>

definition save_final ::
  "(pydict list \<Rightarrow> string \<Rightarrow> bool \<Rightarrow> bool \<Rightarrow> disk \<Rightarrow> disk) \<Rightarrow>
   (pydict list \<Rightarrow> string \<Rightarrow> disk \<Rightarrow> disk) \<Rightarrow> string \<Rightarrow>
   scraper_state \<Rightarrow> string \<Rightarrow> disk \<Rightarrow> disk" where
  "save_final df_to_csv json_dump data_dir s timestamp fs =
     (let fs1 = save_to_csv df_to_csv data_dir (live_events s)
                  (''1xbet_live_events_final_'' @ timestamp @ ''.csv'') False fs;
          fs2 = save_to_csv df_to_csv data_dir (upcoming_events s)
                  (''1xbet_upcoming_events_final_'' @ timestamp @ ''.csv'') False fs1;
          fs3 = save_to_json json_dump data_dir (live_events s)
                  (''1xbet_live_events_final_'' @ timestamp @ ''.json'') fs2
      in save_to_json json_dump data_dir (upcoming_events s)
           (''1xbet_upcoming_events_final_'' @ timestamp @ ''.json'') fs3)"

section \<open>Auxiliary definitions\<close>

text \<open>
  The first three steps of \<open>update_match_odds\<close> in closed form, for the proofs: the dict
  after the assignments to \<open>timestamp\<close>, \<open>score\<close>, \<open>scores\<close> and \<open>status\<close>, and the flag
  after them.
\<close>

fun opt_set :: "pydict \<Rightarrow> string \<Rightarrow> pyval option \<Rightarrow> pydict" where
  "opt_set d k None = d"
| "opt_set d k (Some v) = set_item d k v"

definition early_dict :: "pydict \<Rightarrow> pydict \<Rightarrow> pyval \<Rightarrow> pydict" where
  "early_dict e n ts =
     opt_set (opt_set (opt_set (set_item e ''timestamp'' ts) ''score'' (map_of n ''score''))
                ''scores'' (map_of n ''scores''))
       ''status'' (map_of n ''status'')"

definition early_flag :: "pydict \<Rightarrow> pydict \<Rightarrow> bool" where
  "early_flag e n \<longleftrightarrow>
     (map_of n ''score'' \<noteq> None \<and> map_of e ''score'' \<noteq> map_of n ''score'')
     \<or> (map_of n ''status'' \<noteq> None \<and> map_of e ''status'' \<noteq> map_of n ''status'')"

text \<open>
  For the properties of \<open>reconcile\<close>: the id of a match; a stored match whose id can be a
  dict key (\<open>keyed\<close>); a parsed record that can be merged without an exception
  (\<open>mergeable\<close>); \<open>live_map\<close> without its error branch (\<open>index_map\<close>); a stored match that
  already has every value of a record (\<open>agrees\<close>); and what the proofs say about the loop.
\<close>

abbreviation id_of :: "pydict \<Rightarrow> pyval option" where
  "id_of m \<equiv> map_of m ''match_id''"

definition keyed :: "pydict \<Rightarrow> bool" where
  "keyed m = (case id_of m of None \<Rightarrow> True | Some x \<Rightarrow> hashable x)"

definition mergeable :: "pydict \<Rightarrow> bool" where
  "mergeable r =
     (is_dict r \<and>
      (case id_of r of None \<Rightarrow> True | Some x \<Rightarrow> hashable x \<and> has_key r ''timestamp''))"

fun index_map :: "nat \<Rightarrow> pydict list \<Rightarrow> (pyval \<rightharpoonup> nat) \<Rightarrow> (pyval \<rightharpoonup> nat)" where
  "index_map i [] mp = mp"
| "index_map i (m # ms) mp =
     index_map (Suc i) ms (case id_of m of None \<Rightarrow> mp | Some x \<Rightarrow> mp(x \<mapsto> i))"

definition agrees :: "pydict \<Rightarrow> pydict \<Rightarrow> bool" where
  "agrees e r = list_all (\<lambda>(k, v). map_of e k = Some v) r"

definition is_new :: "(pyval \<rightharpoonup> nat) \<Rightarrow> pydict \<Rightarrow> bool" where
  "is_new lm r = (case id_of r of None \<Rightarrow> False | Some x \<Rightarrow> lm x = None)"

definition settled :: "(pyval \<rightharpoonup> nat) \<Rightarrow> pydict list \<Rightarrow> pydict \<Rightarrow> bool" where
  "settled lm ev r =
     (case id_of r of
        None \<Rightarrow> True
      | Some x \<Rightarrow>
          hashable x \<and> has_key r ''timestamp'' \<and>
          (case lm x of None \<Rightarrow> False | Some j \<Rightarrow> j < length ev \<and> agrees (ev ! j) r))"

definition first_pass ::
  "(pyval \<rightharpoonup> nat) \<Rightarrow> nat \<Rightarrow> pydict list \<Rightarrow> pydict list \<Rightarrow> pydict list \<Rightarrow> bool" where
  "first_pass lm n0 S ev ev1 \<longleftrightarrow>
     drop n0 ev1 = drop n0 ev @ filter (is_new lm) S
     \<and> n0 \<le> length ev1
     \<and> (\<forall>i<n0. id_of (ev1 ! i) = id_of (ev ! i))
     \<and> (\<forall>r\<in>set S. \<forall>x i. id_of r = Some x \<longrightarrow> lm x = Some i \<longrightarrow> agrees (ev1 ! i) r)
     \<and> (\<forall>i<n0. (\<forall>r\<in>set S. \<forall>x. id_of r = Some x \<longrightarrow> lm x \<noteq> Some i)
            \<longrightarrow> ev1 ! i = ev ! i)"

definition lm_ok :: "(pyval \<rightharpoonup> nat) \<Rightarrow> nat \<Rightarrow> pydict list \<Rightarrow> bool" where
  "lm_ok lm n0 ev \<longleftrightarrow>
     n0 \<le> length ev \<and> (\<forall>x i. lm x = Some i \<longrightarrow> i < n0 \<and> id_of (ev ! i) = Some x)"

text \<open>
  For the retention property: the matches that \<open>cleanup_old_data\<close> drops, and the lists on
  which its comparison cannot raise.
\<close>

definition at_or_before_cutoff :: "string \<Rightarrow> pydict \<Rightarrow> bool" where
  "at_or_before_cutoff cutoff_str m =
     (case map_of m ''timestamp'' of
        Some (PStr t) \<Rightarrow> t \<le> cutoff_str
      | _ \<Rightarrow> False)"

definition timestamps_are_strings :: "pydict list \<Rightarrow> bool" where
  "timestamps_are_strings ms =
     list_all (\<lambda>m. case map_of m ''timestamp'' of
                      None \<Rightarrow> True
                    | Some (PStr t) \<Rightarrow> True
                    | Some _ \<Rightarrow> False) ms"

section \<open>Properties\<close>

subsection \<open>Merging\<close>

lemma set_item_triv: "map_of d k = Some v \<Longrightarrow> set_item d k v = d"
  by (simp add: set_item_def update_triv)

lemma map_of_set_item: "map_of (set_item d k v) = (map_of d)(k \<mapsto> v)"
  by (simp add: set_item_def update_conv')

lemma uof_values:
  "distinct (map fst items) \<Longrightarrow>
   map_of (fst (update_other_fields items (e, c))) k =
     (if k \<in> fst ` set items \<and> k \<notin> set handled_keys then map_of items k else map_of e k)"
proof (induction items arbitrary: e c)
  case Nil
  then show ?case by simp
next
  case (Cons kv items)
  obtain key v where kv: "kv = (key, v)" by (cases kv)
  from Cons.prems kv have d: "distinct (map fst items)" and nk: "key \<notin> fst ` set items" by auto
  have IH: "\<And>e c. map_of (fst (update_other_fields items (e, c))) k =
     (if k \<in> fst ` set items \<and> k \<notin> set handled_keys then map_of items k else map_of e k)"
    using Cons.IH[OF d] by blast
  show ?case
  proof (cases "k = key")
    case True
    show ?thesis using nk
      by (simp add: True kv IH[unfolded True] map_of_set_item)
  next
    case False
    then show ?thesis
      by (simp add: kv IH map_of_set_item)
  qed
qed

lemma uof_flag:
  "distinct (map fst items) \<Longrightarrow>
   snd (update_other_fields items (e, c)) \<longleftrightarrow>
     (c \<or> (\<exists>k v. (k, v) \<in> set items \<and> k \<notin> set handled_keys \<and> startswith k ''odd_''
               \<and> map_of e k \<noteq> Some v))"
proof (induction items arbitrary: e c)
  case Nil
  then show ?case by simp
next
  case (Cons kv items)
  obtain key v where kv: "kv = (key, v)" by (cases kv)
  from Cons.prems kv have d: "distinct (map fst items)" and nk: "key \<notin> fst ` set items" by auto
  have nk': "\<And>k w. (k, w) \<in> set items \<Longrightarrow> k \<noteq> key" using nk by force
  show ?case using nk'
    by (auto simp: kv Cons.IH[OF d] map_of_set_item)
qed


lemma uof_frame:
  "map_of items k = None \<Longrightarrow>
   map_of (fst (update_other_fields items (e, c))) k = map_of e k"
proof (induction items arbitrary: e c)
  case Nil
  then show ?case by simp
next
  case (Cons kv items)
  obtain key v where kv: "kv = (key, v)" by (cases kv)
  from Cons.prems kv have ne: "k \<noteq> key" and rest: "map_of items k = None"
    by (auto split: if_splits)
  show ?case using ne
    by (simp add: kv Cons.IH[OF rest] map_of_set_item)
qed

lemma uof_handled:
  "k \<in> set handled_keys \<Longrightarrow>
   map_of (fst (update_other_fields items (e, c))) k = map_of e k"
proof (induction items arbitrary: e c)
  case Nil
  then show ?case by simp
next
  case (Cons kv items)
  obtain key v where kv: "kv = (key, v)" by (cases kv)
  have "key \<notin> set handled_keys \<Longrightarrow> k \<noteq> key" using Cons.prems by auto
  then show ?case
    by (simp add: kv Cons.IH[OF Cons.prems] map_of_set_item)
qed

lemma stage_flag:
  "(case ov of None \<Rightarrow> (d, c)
    | Some v \<Rightarrow> if map_of d k \<noteq> Some v then (set_item d k v, True) else (d, c))
   = (opt_set d k ov, c \<or> (ov \<noteq> None \<and> map_of d k \<noteq> ov))"
  by (cases ov) (simp_all add: set_item_triv)

lemma stage_noflag:
  "(case ov of None \<Rightarrow> d
    | Some v \<Rightarrow> if map_of d k \<noteq> Some v then set_item d k v else d)
   = opt_set d k ov"
  by (cases ov) (simp_all add: set_item_triv)

lemma map_of_opt_set:
  "map_of (opt_set d k ov) k' = (if k' = k \<and> ov \<noteq> None then ov else map_of d k')"
  by (cases ov) (simp_all add: map_of_set_item)


lemma umo_normal:
  "update_match_odds e n =
     (case map_of n ''timestamp'' of
        None \<Rightarrow> Inl KeyError
      | Some ts \<Rightarrow> Inr (update_other_fields n (early_dict e n ts, early_flag e n)))"
  unfolding update_match_odds_def stage_flag stage_noflag
  apply (simp only: Let_def split: option.splits prod.splits)
  apply (simp add: early_dict_def early_flag_def map_of_opt_set map_of_set_item)
  done

lemma map_of_early_dict:
  "map_of n ''timestamp'' = Some ts \<Longrightarrow>
   map_of (early_dict e n ts) k =
     (if k \<in> {''timestamp'', ''score'', ''scores'', ''status''} \<and> map_of n k \<noteq> None
      then map_of n k else map_of e k)"
proof -
  assume ts: "map_of n ''timestamp'' = Some ts"
  consider "k = ''timestamp''" | "k = ''score''" | "k = ''scores''" | "k = ''status''"
    | "k \<notin> {''timestamp'', ''score'', ''scores'', ''status''}" by blast
  then show ?thesis
  proof cases
    case 1 then show ?thesis by (simp add: early_dict_def map_of_opt_set map_of_set_item ts)
  next
    case 2 then show ?thesis
      by (cases "map_of n ''score''") (simp_all add: early_dict_def map_of_opt_set map_of_set_item)
  next
    case 3 then show ?thesis
      by (cases "map_of n ''scores''") (simp_all add: early_dict_def map_of_opt_set map_of_set_item)
  next
    case 4 then show ?thesis
      by (cases "map_of n ''status''") (simp_all add: early_dict_def map_of_opt_set map_of_set_item)
  next
    case 5 then show ?thesis by (simp add: early_dict_def map_of_opt_set map_of_set_item)
  qed
qed

lemma handled_keys_split:
  "k \<in> set handled_keys \<longleftrightarrow>
     k \<in> {''timestamp'', ''score'', ''scores'', ''status''} \<or> k = ''match_id''"
  by (simp add: handled_keys_def)

lemma match_id_not_early: "''match_id'' \<notin> {''timestamp'', ''score'', ''scores'', ''status''}"
  by simp

lemma odd_not_handled: "startswith k ''odd_'' \<Longrightarrow> k \<notin> set handled_keys"
  by (auto simp: startswith_def handled_keys_def)

lemma map_of_eq_None_keys: "map_of d k = None \<longleftrightarrow> k \<notin> fst ` set d"
  by (simp add: map_of_eq_None_iff)

lemma merged_lookup:
  assumes "is_dict new_match"
    and "update_match_odds existing_match new_match = Inr (merged, odds_changed)"
  shows "map_of merged k =
           (if k = ''match_id'' then map_of existing_match k
            else case map_of new_match k of
                   None \<Rightarrow> map_of existing_match k
                 | Some v \<Rightarrow> Some v)"
proof -
  let ?E = "early_dict existing_match new_match"
  from assms(2) obtain ts where ts: "map_of new_match ''timestamp'' = Some ts"
    and r: "update_other_fields new_match (?E ts, early_flag existing_match new_match)
            = (merged, odds_changed)"
    by (auto simp: umo_normal split: option.splits)
  have d: "distinct (map fst new_match)" using assms(1) by (simp add: is_dict_def)
  have m: "merged = fst (update_other_fields new_match
                           (?E ts, early_flag existing_match new_match))"
    using r by simp
  show ?thesis
  proof (cases "k \<in> set handled_keys")
    case True
    have 1: "map_of merged k = map_of (?E ts) k"
      unfolding m by (rule uof_handled[OF True])
    show ?thesis
    proof (cases "k = ''match_id''")
      case True
      then show ?thesis using 1 map_of_early_dict[OF ts, of existing_match k] match_id_not_early
        by simp
    next
      case False
      with True have "k \<in> {''timestamp'', ''score'', ''scores'', ''status''}"
        by (simp add: handled_keys_split)
      then show ?thesis using 1 False map_of_early_dict[OF ts, of existing_match k]
        by (cases "map_of new_match k") simp_all
    qed
  next
    case False
    then have nm: "k \<noteq> ''match_id''" and ne: "k \<notin> {''timestamp'', ''score'', ''scores'', ''status''}"
      by (simp_all add: handled_keys_split)
    have 1: "map_of merged k =
               (if k \<in> fst ` set new_match then map_of new_match k else map_of (?E ts) k)"
      unfolding m using uof_values[OF d, of "?E ts" _ k] False by simp
    have 2: "map_of (?E ts) k = map_of existing_match k"
      using map_of_early_dict[OF ts, of existing_match k] ne by simp
    show ?thesis
    proof (cases "map_of new_match k")
      case None
      then have "k \<notin> fst ` set new_match" by (simp add: map_of_eq_None_keys)
      then show ?thesis using 1 2 nm None by simp
    next
      case (Some v)
      then have "k \<in> fst ` set new_match" using map_of_eq_None_keys[of new_match k] by simp
      then show ?thesis using 1 nm Some by simp
    qed
  qed
qed

lemma changed_iff:
  assumes "is_dict new_match"
    and "update_match_odds existing_match new_match = Inr (merged, odds_changed)"
  shows "odds_changed \<longleftrightarrow>
           (\<exists>k. has_key new_match k \<and> tracked_field k
                \<and> map_of existing_match k \<noteq> map_of new_match k)"
proof -
  let ?E = "early_dict existing_match new_match"
  let ?F = "early_flag existing_match new_match"
  from assms(2) obtain ts where ts: "map_of new_match ''timestamp'' = Some ts"
    and r: "update_other_fields new_match (?E ts, ?F) = (merged, odds_changed)"
    by (auto simp: umo_normal split: option.splits)
  have d: "distinct (map fst new_match)" using assms(1) by (simp add: is_dict_def)
  have c: "odds_changed = snd (update_other_fields new_match (?E ts, ?F))"
    using r by simp
  have early: "\<And>k. k \<notin> set handled_keys \<Longrightarrow> map_of (?E ts) k = map_of existing_match k"
    using map_of_early_dict[OF ts, of existing_match] by (simp add: handled_keys_split)
  have odd: "(\<exists>k v. (k, v) \<in> set new_match \<and> k \<notin> set handled_keys \<and> startswith k ''odd_''
                 \<and> map_of (?E ts) k \<noteq> Some v)
             \<longleftrightarrow> (\<exists>k. has_key new_match k \<and> startswith k ''odd_''
                 \<and> map_of existing_match k \<noteq> map_of new_match k)" (is "?L \<longleftrightarrow> ?R")
  proof
    assume ?L
    then obtain k v where kv: "(k, v) \<in> set new_match" and nh: "k \<notin> set handled_keys"
      and o: "startswith k ''odd_''" and ne: "map_of (?E ts) k \<noteq> Some v" by blast
    from kv d have "map_of new_match k = Some v" by simp
    with nh o ne early[OF nh] show ?R by (auto simp: has_key_def)
  next
    assume ?R
    then obtain k where hk: "has_key new_match k" and o: "startswith k ''odd_''"
      and ne: "map_of existing_match k \<noteq> map_of new_match k" by blast
    from hk obtain v where v: "map_of new_match k = Some v" by (auto simp: has_key_def)
    then have kv: "(k, v) \<in> set new_match" by (rule map_of_SomeD)
    have nh: "k \<notin> set handled_keys" by (rule odd_not_handled[OF o])
    have "map_of (?E ts) k \<noteq> Some v" using ne v early[OF nh] by simp
    with kv nh o show ?L by blast
  qed
  have flag: "?F \<longleftrightarrow> (\<exists>k. has_key new_match k \<and> (k = ''score'' \<or> k = ''status'')
                 \<and> map_of existing_match k \<noteq> map_of new_match k)"
    unfolding early_flag_def has_key_def by blast
  have "odds_changed \<longleftrightarrow> ?F \<or> (\<exists>k. has_key new_match k \<and> startswith k ''odd_''
                 \<and> map_of existing_match k \<noteq> map_of new_match k)"
    unfolding c uof_flag[OF d] odd ..
  then show ?thesis unfolding flag tracked_field_def by blast
qed


text \<open>
  C7. A field that the incoming record does not have keeps the value the stored match had:
  whenever \<open>update_match_odds\<close> returns, every key absent from the new record reads the
  same in the merged dict as before.
\<close>

theorem C7_absent_fields_kept:
  assumes "update_match_odds existing_match new_match = Inr (merged, odds_changed)"
    and "map_of new_match k = None"
  shows "map_of merged k = map_of existing_match k"
proof -
  from assms(1) obtain ts where ts: "map_of new_match ''timestamp'' = Some ts"
    and r: "update_other_fields new_match
              (early_dict existing_match new_match ts, early_flag existing_match new_match)
            = (merged, odds_changed)"
    by (auto simp: umo_normal split: option.splits)
  have "map_of merged k = map_of (early_dict existing_match new_match ts) k"
    using uof_frame[OF assms(2), of "early_dict existing_match new_match ts"
        "early_flag existing_match new_match"] r by simp
  then show ?thesis using assms(2) by (simp add: map_of_early_dict[OF ts])
qed

text \<open>
  A stored match with \<open>odd_1x2_home\<close> merged with a record that has a score and no odds.
\<close>

theorem C7_absent_fields_kept_witness:
  "map_of [(''match_id'', PStr ''x''), (''timestamp'', PStr ''t1''), (''score'', PStr ''1 - 0'')]
      ''odd_1x2_home'' = None
   \<and> update_match_odds
       [(''match_id'', PStr ''x''), (''timestamp'', PStr ''t0''), (''odd_1x2_home'', PStr ''1.85'')]
       [(''match_id'', PStr ''x''), (''timestamp'', PStr ''t1''), (''score'', PStr ''1 - 0'')]
     = Inr ([(''match_id'', PStr ''x''), (''timestamp'', PStr ''t1''),
             (''odd_1x2_home'', PStr ''1.85''), (''score'', PStr ''1 - 0'')], True)
   \<and> map_of [(''match_id'', PStr ''x''), (''timestamp'', PStr ''t1''),
             (''odd_1x2_home'', PStr ''1.85''), (''score'', PStr ''1 - 0'')] ''odd_1x2_home''
     = map_of [(''match_id'', PStr ''x''), (''timestamp'', PStr ''t0''),
               (''odd_1x2_home'', PStr ''1.85'')] ''odd_1x2_home''"
proof -
  have u: "update_match_odds
       [(''match_id'', PStr ''x''), (''timestamp'', PStr ''t0''), (''odd_1x2_home'', PStr ''1.85'')]
       [(''match_id'', PStr ''x''), (''timestamp'', PStr ''t1''), (''score'', PStr ''1 - 0'')]
     = Inr ([(''match_id'', PStr ''x''), (''timestamp'', PStr ''t1''),
             (''odd_1x2_home'', PStr ''1.85''), (''score'', PStr ''1 - 0'')], True)"
    by code_simp
  have a: "map_of [(''match_id'', PStr ''x''), (''timestamp'', PStr ''t1''), (''score'', PStr ''1 - 0'')]
      ''odd_1x2_home'' = None" by simp
  from C7_absent_fields_kept[OF u a] u a show ?thesis by simp
qed



text \<open>
  C3 as the claim states it: an existing match is classified as updated exactly when some
  mutable field of the incoming record differs. The start time of the stored match below
  is replaced by the incoming one, and \<open>update_match_odds\<close> returns \<open>False\<close>: the match is
  not put on the list of changed matches.
\<close>

theorem C3_start_time_change_not_flagged:
  "update_match_odds
     [(''match_id'', PStr ''x''), (''timestamp'', PStr ''t0''), (''start_time'', PStr ''10:00'')]
     [(''match_id'', PStr ''x''), (''timestamp'', PStr ''t0''), (''start_time'', PStr ''11:00'')]
   = Inr ([(''match_id'', PStr ''x''), (''timestamp'', PStr ''t0''),
           (''start_time'', PStr ''11:00'')], False)"
  by code_simp

text \<open>
  C3, amended. For a new record that is a dict and carries a time stamp, the flag returned
  by \<open>update_match_odds\<close> is \<open>True\<close> exactly when \<open>score\<close>, \<open>status\<close> or a field whose name starts
  with \<open>odd_\<close> is in the new record with a value other than the stored one (a stored match
  without the field included); and every field of the new record other than \<open>match_id\<close>,
  flagged or not, reads in the merged match as in the new record.
\<close>

theorem C3_updated_iff_tracked_field_differs:
  assumes "is_dict new_match"
    and "update_match_odds existing_match new_match = Inr (merged, odds_changed)"
  shows "(odds_changed \<longleftrightarrow>
            (\<exists>k. has_key new_match k \<and> tracked_field k
                 \<and> map_of existing_match k \<noteq> map_of new_match k))
         \<and> (\<forall>k. has_key new_match k \<and> k \<noteq> ''match_id''
                 \<longrightarrow> map_of merged k = map_of new_match k)"
proof (intro conjI allI impI)
  show "odds_changed \<longleftrightarrow>
          (\<exists>k. has_key new_match k \<and> tracked_field k
               \<and> map_of existing_match k \<noteq> map_of new_match k)"
    by (rule changed_iff[OF assms])
next
  fix k assume "has_key new_match k \<and> k \<noteq> ''match_id''"
  then show "map_of merged k = map_of new_match k"
    using merged_lookup[OF assms, of k] by (auto simp: has_key_def)
qed

theorem C3_updated_iff_tracked_field_differs_witness:
  "is_dict [(''match_id'', PStr ''x''), (''timestamp'', PStr ''t1''),
            (''start_time'', PStr ''11:00''), (''odd_1x2_home'', PStr ''1.86'')]
   \<and> update_match_odds
       [(''match_id'', PStr ''x''), (''timestamp'', PStr ''t0''),
        (''start_time'', PStr ''10:00''), (''odd_1x2_home'', PStr ''1.85'')]
       [(''match_id'', PStr ''x''), (''timestamp'', PStr ''t1''),
        (''start_time'', PStr ''11:00''), (''odd_1x2_home'', PStr ''1.86'')]
     = Inr ([(''match_id'', PStr ''x''), (''timestamp'', PStr ''t1''),
             (''start_time'', PStr ''11:00''), (''odd_1x2_home'', PStr ''1.86'')], True)
   \<and> (\<exists>k. has_key [(''match_id'', PStr ''x''), (''timestamp'', PStr ''t1''),
                      (''start_time'', PStr ''11:00''), (''odd_1x2_home'', PStr ''1.86'')] k
            \<and> tracked_field k
            \<and> map_of [(''match_id'', PStr ''x''), (''timestamp'', PStr ''t0''),
                       (''start_time'', PStr ''10:00''), (''odd_1x2_home'', PStr ''1.85'')] k
                \<noteq> map_of [(''match_id'', PStr ''x''), (''timestamp'', PStr ''t1''),
                       (''start_time'', PStr ''11:00''), (''odd_1x2_home'', PStr ''1.86'')] k)"
proof -
  have d: "is_dict [(''match_id'', PStr ''x''), (''timestamp'', PStr ''t1''),
            (''start_time'', PStr ''11:00''), (''odd_1x2_home'', PStr ''1.86'')]"
    by (simp add: is_dict_def)
  have u: "update_match_odds
       [(''match_id'', PStr ''x''), (''timestamp'', PStr ''t0''),
        (''start_time'', PStr ''10:00''), (''odd_1x2_home'', PStr ''1.85'')]
       [(''match_id'', PStr ''x''), (''timestamp'', PStr ''t1''),
        (''start_time'', PStr ''11:00''), (''odd_1x2_home'', PStr ''1.86'')]
     = Inr ([(''match_id'', PStr ''x''), (''timestamp'', PStr ''t1''),
             (''start_time'', PStr ''11:00''), (''odd_1x2_home'', PStr ''1.86'')], True)"
    by code_simp
  from C3_updated_iff_tracked_field_differs[OF d u] d u show ?thesis by blast
qed

text \<open>
  C8 as the claim states it: a merge never overwrites league, team names, sport or
  country. The stored match and the incoming record below have the same \<open>match_id\<close> and
  differ in \<open>country\<close>; the merged match has the incoming country.
\<close>

theorem C8_country_overwritten:
  "update_match_odds
     [(''sport'', PStr ''Football''), (''country'', PStr ''in''), (''league'', PStr ''L''),
      (''timestamp'', PStr ''t0''), (''team1'', PStr ''A''), (''team2'', PStr ''B''),
      (''match_id'', PStr ''Football_L_A_B'')]
     [(''sport'', PStr ''Football''), (''country'', PStr ''uk''), (''league'', PStr ''L''),
      (''timestamp'', PStr ''t1''), (''team1'', PStr ''A''), (''team2'', PStr ''B''),
      (''match_id'', PStr ''Football_L_A_B'')]
   = Inr ([(''sport'', PStr ''Football''), (''country'', PStr ''uk''), (''league'', PStr ''L''),
           (''timestamp'', PStr ''t1''), (''team1'', PStr ''A''), (''team2'', PStr ''B''),
           (''match_id'', PStr ''Football_L_A_B'')], False)"
  by code_simp

text \<open>
  C8, amended. A merge never writes \<open>match_id\<close>. Each of \<open>sport\<close>, \<open>country\<close>, \<open>league\<close>,
  \<open>team1\<close> and \<open>team2\<close> is treated like any other field: it keeps the stored value when the
  incoming record does not have it, and takes the incoming value when it does.
\<close>

theorem C8_match_id_kept_identity_fields_follow_new:
  assumes "is_dict new_match"
    and "update_match_odds existing_match new_match = Inr (merged, odds_changed)"
  shows "map_of merged ''match_id'' = map_of existing_match ''match_id''
         \<and> (\<forall>k \<in> set identity_fields.
               map_of merged k =
                 (case map_of new_match k of
                    None \<Rightarrow> map_of existing_match k
                  | Some v \<Rightarrow> Some v))"
proof
  show "map_of merged ''match_id'' = map_of existing_match ''match_id''"
    using merged_lookup[OF assms, of "''match_id''"] by simp
next
  show "\<forall>k \<in> set identity_fields.
          map_of merged k =
            (case map_of new_match k of
               None \<Rightarrow> map_of existing_match k
             | Some v \<Rightarrow> Some v)"
  proof
    fix k assume "k \<in> set identity_fields"
    then have "k \<noteq> ''match_id''" by (auto simp: identity_fields_def)
    then show "map_of merged k =
            (case map_of new_match k of
               None \<Rightarrow> map_of existing_match k
             | Some v \<Rightarrow> Some v)"
      using merged_lookup[OF assms, of k] by simp
  qed
qed

theorem C8_match_id_kept_identity_fields_follow_new_witness:
  "is_dict [(''sport'', PStr ''Football''), (''country'', PStr ''uk''),
            (''timestamp'', PStr ''t1''), (''match_id'', PStr ''other'')]
   \<and> update_match_odds
       [(''sport'', PStr ''Football''), (''country'', PStr ''in''), (''league'', PStr ''L''),
        (''timestamp'', PStr ''t0''), (''match_id'', PStr ''Football_L_0'')]
       [(''sport'', PStr ''Football''), (''country'', PStr ''uk''),
        (''timestamp'', PStr ''t1''), (''match_id'', PStr ''other'')]
     = Inr ([(''sport'', PStr ''Football''), (''country'', PStr ''uk''), (''league'', PStr ''L''),
             (''timestamp'', PStr ''t1''), (''match_id'', PStr ''Football_L_0'')], False)
   \<and> map_of [(''sport'', PStr ''Football''), (''country'', PStr ''uk''), (''league'', PStr ''L''),
              (''timestamp'', PStr ''t1''), (''match_id'', PStr ''Football_L_0'')] ''match_id''
     = Some (PStr ''Football_L_0'')
   \<and> map_of [(''sport'', PStr ''Football''), (''country'', PStr ''uk''), (''league'', PStr ''L''),
              (''timestamp'', PStr ''t1''), (''match_id'', PStr ''Football_L_0'')] ''league''
     = Some (PStr ''L'')"
proof -
  have d: "is_dict [(''sport'', PStr ''Football''), (''country'', PStr ''uk''),
            (''timestamp'', PStr ''t1''), (''match_id'', PStr ''other'')]"
    by (simp add: is_dict_def)
  have u: "update_match_odds
       [(''sport'', PStr ''Football''), (''country'', PStr ''in''), (''league'', PStr ''L''),
        (''timestamp'', PStr ''t0''), (''match_id'', PStr ''Football_L_0'')]
       [(''sport'', PStr ''Football''), (''country'', PStr ''uk''),
        (''timestamp'', PStr ''t1''), (''match_id'', PStr ''other'')]
     = Inr ([(''sport'', PStr ''Football''), (''country'', PStr ''uk''), (''league'', PStr ''L''),
             (''timestamp'', PStr ''t1''), (''match_id'', PStr ''Football_L_0'')], False)"
    by code_simp
  have l: "''league'' \<in> set identity_fields" by (simp add: identity_fields_def)
  from C8_match_id_kept_identity_fields_follow_new[OF d u] l d u show ?thesis
    by simp
qed

subsection \<open>Reconciliation\<close>

lemma agreesD: "agrees e r \<Longrightarrow> (k, v) \<in> set r \<Longrightarrow> map_of e k = Some v"
  by (auto simp: agrees_def list_all_iff)

lemma agreesI: "(\<And>k v. (k, v) \<in> set r \<Longrightarrow> map_of e k = Some v) \<Longrightarrow> agrees e r"
  by (auto simp: agrees_def list_all_iff)

lemma agrees_self: "is_dict r \<Longrightarrow> agrees r r"
  by (rule agreesI) (simp add: is_dict_def)

lemma uof_same:
  "(\<And>k v. (k, v) \<in> set items \<Longrightarrow> map_of e k = Some v) \<Longrightarrow>
   update_other_fields items (e, c) = (e, c)"
proof (induction items)
  case Nil
  then show ?case by simp
next
  case (Cons kv items)
  obtain key v where kv: "kv = (key, v)" by (cases kv)
  have here: "map_of e key = Some v" using Cons.prems[of key v] kv by simp
  have rest: "update_other_fields items (e, c) = (e, c)"
    using Cons.IH Cons.prems by simp
  show ?case by (simp add: kv here rest)
qed

lemma opt_set_same: "ov \<noteq> None \<Longrightarrow> map_of d k = ov \<Longrightarrow> opt_set d k ov = d"
  by (cases ov) (simp_all add: set_item_triv)

lemma opt_set_same': "ov = None \<or> map_of d k = ov \<Longrightarrow> opt_set d k ov = d"
  by (cases ov) (simp_all add: set_item_triv)

lemma agrees_lookup: "agrees e r \<Longrightarrow> map_of r k = None \<or> map_of e k = map_of r k"
proof (cases "map_of r k")
  case None
  then show ?thesis by simp
next
  case (Some v)
  assume a: "agrees e r"
  from Some have "(k, v) \<in> set r" by (rule map_of_SomeD)
  from agreesD[OF a this] Some show ?thesis by simp
qed

lemma merge_same:
  assumes "agrees e r" and "has_key r ''timestamp''"
  shows "update_match_odds e r = Inr (e, False)"
proof -
  from assms(2) obtain ts where ts: "map_of r ''timestamp'' = Some ts"
    by (auto simp: has_key_def)
  have t: "map_of e ''timestamp'' = Some ts" using agrees_lookup[OF assms(1), of "''timestamp''"] ts by simp
  have e0: "set_item e ''timestamp'' ts = e" by (rule set_item_triv[OF t])
  have ed: "early_dict e r ts = e"
    unfolding early_dict_def e0
    by (simp add: opt_set_same'[OF agrees_lookup[OF assms(1)]])
  have ef: "early_flag e r = False"
    unfolding early_flag_def
    using agrees_lookup[OF assms(1), of "''score''"] agrees_lookup[OF assms(1), of "''status''"]
    by auto
  have "update_other_fields r (e, False) = (e, False)"
    by (rule uof_same) (rule agreesD[OF assms(1)])
  then show ?thesis by (simp add: umo_normal ts ed ef)
qed

lemma merge_id:
  assumes "update_match_odds e r = Inr (m, c)"
  shows "id_of m = id_of e"
proof -
  from assms obtain ts where ts: "map_of r ''timestamp'' = Some ts"
    and u: "update_other_fields r (early_dict e r ts, early_flag e r) = (m, c)"
    by (auto simp: umo_normal split: option.splits)
  have h: "''match_id'' \<in> set handled_keys" by (simp add: handled_keys_def)
  have "id_of m = id_of (early_dict e r ts)"
    using uof_handled[OF h, of r "early_dict e r ts" "early_flag e r"] u by simp
  also have "\<dots> = id_of e"
    using map_of_early_dict[OF ts, of e "''match_id''"] by simp
  finally show ?thesis .
qed

lemma merge_ok:
  "has_key r ''timestamp'' \<Longrightarrow> \<exists>m c. update_match_odds e r = Inr (m, c)"
  by (cases "update_other_fields r (early_dict e r (the (map_of r ''timestamp'')), early_flag e r)")
     (auto simp: umo_normal has_key_def)

lemma merge_agrees:
  assumes "is_dict r" and "update_match_odds e r = Inr (m, c)" and "id_of e = id_of r"
  shows "agrees m r"
proof (rule agreesI)
  fix k v assume kv: "(k, v) \<in> set r"
  with assms(1) have r: "map_of r k = Some v" by (simp add: is_dict_def)
  show "map_of m k = Some v"
  proof (cases "k = ''match_id''")
    case True
    then show ?thesis using merged_lookup[OF assms(1,2), of k] assms(3) r by simp
  next
    case False
    then show ?thesis using merged_lookup[OF assms(1,2), of k] r by simp
  qed
qed

lemma match_ids_Cons:
  "match_ids (m # ms) = (case id_of m of None \<Rightarrow> match_ids ms | Some x \<Rightarrow> x # match_ids ms)"
  by (simp add: match_ids_def map_filter_simps split: option.splits)

lemma match_ids_Nil: "match_ids [] = []"
  by (simp add: match_ids_def map_filter_simps)

lemma in_match_ids: "x \<in> set (match_ids ms) \<longleftrightarrow> (\<exists>m \<in> set ms. id_of m = Some x)"
  by (induction ms) (auto simp: match_ids_Cons match_ids_Nil split: option.splits)

lemma index_map_notin:
  "x \<notin> set (match_ids ms) \<Longrightarrow> index_map n ms mp x = mp x"
  by (induction ms arbitrary: n mp) (auto simp: match_ids_Cons match_ids_Nil split: option.splits)

lemma index_map_append:
  "index_map n (xs @ ys) mp = index_map (n + length xs) ys (index_map n xs mp)"
  by (induction xs arbitrary: n mp) simp_all

lemma index_map_ids:
  "map (\<lambda>m. id_of m) ms = map (\<lambda>m. id_of m) ms' \<Longrightarrow> index_map n ms mp = index_map n ms' mp"
proof (induction ms arbitrary: ms' n mp)
  case Nil
  then show ?case by simp
next
  case (Cons m ms)
  then obtain m' rest where ms': "ms' = m' # rest" by (cases ms') auto
  with Cons.prems have h: "id_of m = id_of m'" and t: "map (\<lambda>m. id_of m) ms = map (\<lambda>m. id_of m) rest"
    by simp_all
  show ?case by (simp add: ms' h Cons.IH[OF t])
qed

lemma index_map_range:
  "index_map n ms mp x = Some j \<Longrightarrow>
   mp x = Some j \<or> (n \<le> j \<and> j < n + length ms \<and> id_of (ms ! (j - n)) = Some x)"
proof (induction ms arbitrary: n mp)
  case Nil
  then show ?case by simp
next
  case (Cons m ms)
  let ?mp = "case id_of m of None \<Rightarrow> mp | Some y \<Rightarrow> mp(y \<mapsto> n)"
  from Cons.prems have "index_map (Suc n) ms ?mp x = Some j" by simp
  from Cons.IH[OF this] consider "?mp x = Some j"
    | "Suc n \<le> j" "j < Suc n + length ms" "id_of (ms ! (j - Suc n)) = Some x" by blast
  then show ?case
  proof cases
    case 1
    then show ?thesis by (auto split: option.splits if_splits)
  next
    case 2
    then have "(m # ms) ! (j - n) = ms ! (j - Suc n)"
      by (metis Suc_diff_le Suc_le_lessD diff_Suc_Suc less_imp_le nth_Cons_Suc)
    with 2 show ?thesis by auto
  qed
qed

lemma index_map_at:
  "distinct (match_ids ms) \<Longrightarrow> j < length ms \<Longrightarrow> id_of (ms ! j) = Some x \<Longrightarrow>
   index_map n ms mp x = Some (n + j)"
proof (induction ms arbitrary: n mp j)
  case Nil
  then show ?case by simp
next
  case (Cons m ms)
  show ?case
  proof (cases j)
    case 0
    with Cons.prems have m: "id_of m = Some x" by simp
    with Cons.prems(1) have "x \<notin> set (match_ids ms)" by (simp add: match_ids_Cons)
    then show ?thesis using m 0 by (simp add: index_map_notin)
  next
    case (Suc j')
    from Cons.prems(1) have d: "distinct (match_ids ms)"
      by (simp add: match_ids_Cons split: option.splits)
    from Cons.prems Suc have "j' < length ms" "id_of (ms ! j') = Some x" by simp_all
    from Cons.IH[OF d this] show ?thesis using Suc by simp
  qed
qed

lemma build_map_index_map:
  "list_all keyed ms \<Longrightarrow> build_map n ms mp = Inr (index_map n ms mp)"
  by (induction ms arbitrary: n mp) (auto simp: keyed_def split: option.splits)

lemma update_events_settled:
  "list_all (settled lm (events st)) S \<Longrightarrow> update_events lm S st = Inr st"
proof (induction S)
  case Nil
  then show ?case by simp
next
  case (Cons r S)
  from Cons.prems have here: "settled lm (events st) r"
    and rest: "list_all (settled lm (events st)) S" by simp_all
  note IH = Cons.IH[OF rest]
  show ?case
  proof (cases "id_of r")
    case None
    then show ?thesis using IH by simp
  next
    case (Some x)
    with here obtain j where hx: "hashable x" and ts: "has_key r ''timestamp''"
      and lm: "lm x = Some j" and a: "agrees (events st ! j) r"
      by (auto simp: settled_def split: option.splits)
    have m: "update_match_odds (events st ! j) r = Inr (events st ! j, False)"
      by (rule merge_same[OF a ts])
    show ?thesis using IH by (simp add: Some hx lm m)
  qed
qed

lemma first_pass_skip:
  assumes "id_of r = None" and "first_pass lm n0 S ev ev1"
  shows "first_pass lm n0 (r # S) ev ev1"
  using assms by (simp add: first_pass_def is_new_def)

lemma first_pass_new:
  assumes "id_of r = Some x" and "lm x = None" and "n0 \<le> length ev"
    and "first_pass lm n0 S (ev @ [r]) ev1"
  shows "first_pass lm n0 (r # S) ev ev1"
proof -
  have nth: "\<And>i. i < n0 \<Longrightarrow> (ev @ [r]) ! i = ev ! i"
    using assms(3) by (simp add: nth_append)
  have new: "is_new lm r" using assms(1,2) by (simp add: is_new_def)
  from assms(4) have
    p1: "drop n0 ev1 = drop n0 (ev @ [r]) @ filter (is_new lm) S" and
    p2: "n0 \<le> length ev1" and
    p3: "\<forall>i<n0. id_of (ev1 ! i) = id_of ((ev @ [r]) ! i)" and
    p4: "\<forall>r\<in>set S. \<forall>x i. id_of r = Some x \<longrightarrow> lm x = Some i \<longrightarrow> agrees (ev1 ! i) r" and
    p5: "\<forall>i<n0. (\<forall>r\<in>set S. \<forall>x. id_of r = Some x \<longrightarrow> lm x \<noteq> Some i)
            \<longrightarrow> ev1 ! i = (ev @ [r]) ! i"
    by (simp_all add: first_pass_def)
  have q1: "drop n0 ev1 = drop n0 ev @ filter (is_new lm) (r # S)"
    using p1 assms(3) new by simp
  have q3: "\<forall>i<n0. id_of (ev1 ! i) = id_of (ev ! i)" using p3 nth by simp
  have q4: "\<forall>r'\<in>set (r # S). \<forall>x i. id_of r' = Some x \<longrightarrow> lm x = Some i \<longrightarrow> agrees (ev1 ! i) r'"
    using p4 assms(1,2) by auto
  have q5: "\<forall>i<n0. (\<forall>r'\<in>set (r # S). \<forall>x. id_of r' = Some x \<longrightarrow> lm x \<noteq> Some i)
            \<longrightarrow> ev1 ! i = ev ! i"
    using p5 nth by simp
  show ?thesis unfolding first_pass_def using q1 p2 q3 q4 q5 by blast
qed

lemma first_pass_merge:
  assumes "id_of r = Some x" and "lm x = Some i" and "lm_ok lm n0 ev"
    and "x \<notin> set (match_ids S)"
    and "id_of m = id_of (ev ! i)" and "agrees m r"
    and "first_pass lm n0 S (ev[i := m]) ev1"
  shows "first_pass lm n0 (r # S) ev ev1"
proof -
  from assms(2,3) have i: "i < n0" and n0: "n0 \<le> length ev" and idi: "id_of (ev ! i) = Some x"
    by (auto simp: lm_ok_def)
  have only: "\<And>y. lm y = Some i \<Longrightarrow> y = x"
    using assms(3) idi by (auto simp: lm_ok_def)
  from assms(7) have
    p1: "drop n0 ev1 = drop n0 (ev[i := m]) @ filter (is_new lm) S" and
    p2: "n0 \<le> length ev1" and
    p3: "\<forall>j<n0. id_of (ev1 ! j) = id_of ((ev[i := m]) ! j)" and
    p4: "\<forall>r\<in>set S. \<forall>x i. id_of r = Some x \<longrightarrow> lm x = Some i \<longrightarrow> agrees (ev1 ! i) r" and
    p5: "\<forall>j<n0. (\<forall>r\<in>set S. \<forall>x. id_of r = Some x \<longrightarrow> lm x \<noteq> Some j)
            \<longrightarrow> ev1 ! j = (ev[i := m]) ! j"
    by (simp_all add: first_pass_def)
  have notnew: "\<not> is_new lm r" using assms(1,2) by (simp add: is_new_def)
  have q1: "drop n0 ev1 = drop n0 ev @ filter (is_new lm) (r # S)"
    using p1 i notnew by (simp add: drop_update_cancel)
  have q3: "\<forall>j<n0. id_of (ev1 ! j) = id_of (ev ! j)"
  proof (intro allI impI)
    fix j assume j: "j < n0"
    show "id_of (ev1 ! j) = id_of (ev ! j)"
    proof (cases "j = i")
      case True
      then show ?thesis using p3 j n0 assms(5) by simp
    next
      case False
      then show ?thesis using p3 j by simp
    qed
  qed
  have untouched: "\<forall>r'\<in>set S. \<forall>y. id_of r' = Some y \<longrightarrow> lm y \<noteq> Some i"
  proof (intro ballI allI impI)
    fix r' y assume r': "r' \<in> set S" and y: "id_of r' = Some y"
    show "lm y \<noteq> Some i"
    proof
      assume "lm y = Some i"
      then have "y = x" by (rule only)
      with r' y have "x \<in> set (match_ids S)" by (auto simp: in_match_ids)
      with assms(4) show False by simp
    qed
  qed
  have here: "ev1 ! i = m" using p5 i untouched n0 by simp
  have q4: "\<forall>r'\<in>set (r # S). \<forall>y j. id_of r' = Some y \<longrightarrow> lm y = Some j \<longrightarrow> agrees (ev1 ! j) r'"
    using p4 assms(1,2,6) here by auto
  have q5: "\<forall>j<n0. (\<forall>r'\<in>set (r # S). \<forall>y. id_of r' = Some y \<longrightarrow> lm y \<noteq> Some j)
            \<longrightarrow> ev1 ! j = ev ! j"
  proof (intro allI impI)
    fix j assume j: "j < n0"
      and nt: "\<forall>r'\<in>set (r # S). \<forall>y. id_of r' = Some y \<longrightarrow> lm y \<noteq> Some j"
    from nt assms(1,2) have ne: "j \<noteq> i" by auto
    from nt have "\<forall>r'\<in>set S. \<forall>y. id_of r' = Some y \<longrightarrow> lm y \<noteq> Some j" by simp
    with p5 j have "ev1 ! j = (ev[i := m]) ! j" by blast
    with ne show "ev1 ! j = ev ! j" by simp
  qed
  show ?thesis unfolding first_pass_def using q1 p2 q3 q4 q5 by blast
qed

lemma lm_ok_append:
  assumes "lm_ok lm n0 ev"
  shows "lm_ok lm n0 (ev @ [r])"
proof -
  from assms have n0: "n0 \<le> length ev"
    and ok: "\<And>x i. lm x = Some i \<Longrightarrow> i < n0 \<and> id_of (ev ! i) = Some x"
    by (simp_all add: lm_ok_def)
  have "i < n0 \<and> id_of ((ev @ [r]) ! i) = Some x" if "lm x = Some i" for x i
  proof -
    from ok[OF that] have i: "i < n0" and id: "id_of (ev ! i) = Some x" by simp_all
    from i n0 have "(ev @ [r]) ! i = ev ! i" by (simp add: nth_append)
    with i id show ?thesis by simp
  qed
  with n0 show ?thesis by (simp add: lm_ok_def)
qed

lemma lm_ok_update:
  assumes "lm_ok lm n0 ev" and "id_of m = id_of (ev ! i)"
  shows "lm_ok lm n0 (ev[i := m])"
proof -
  from assms(1) have n0: "n0 \<le> length ev"
    and ok: "\<And>x j. lm x = Some j \<Longrightarrow> j < n0 \<and> id_of (ev ! j) = Some x"
    by (simp_all add: lm_ok_def)
  have "j < n0 \<and> id_of ((ev[i := m]) ! j) = Some x" if "lm x = Some j" for x j
  proof -
    from ok[OF that] have j: "j < n0" and id: "id_of (ev ! j) = Some x" by simp_all
    from j n0 have "j < length ev" by simp
    then have "id_of ((ev[i := m]) ! j) = id_of (ev ! j)"
      using assms(2) by (cases "j = i") simp_all
    with j id show ?thesis by simp
  qed
  with n0 show ?thesis by (simp add: lm_ok_def)
qed

lemma update_events_first:
  assumes "list_all mergeable S" and "distinct (match_ids S)" and "lm_ok lm n0 (events st)"
  shows "\<exists>st1. update_events lm S st = Inr st1 \<and> first_pass lm n0 S (events st) (events st1)"
  using assms
proof (induction S arbitrary: st)
  case Nil
  then show ?case by (simp add: first_pass_def lm_ok_def)
next
  case (Cons r S)
  from Cons.prems(1) have mr: "mergeable r" and mS: "list_all mergeable S" by simp_all
  show ?case
  proof (cases "id_of r")
    case None
    from Cons.prems(2) None have dS: "distinct (match_ids S)" by (simp add: match_ids_Cons)
    from Cons.IH[OF mS dS Cons.prems(3)] obtain st1 where
      u: "update_events lm S st = Inr st1" and f: "first_pass lm n0 S (events st) (events st1)"
      by blast
    have "update_events lm (r # S) st = Inr st1" using u None by simp
    with first_pass_skip[OF None f] show ?thesis by blast
  next
    case (Some x)
    from Cons.prems(2) Some have dS: "distinct (match_ids S)" and nx: "x \<notin> set (match_ids S)"
      by (simp_all add: match_ids_Cons)
    from mr Some have hx: "hashable x" and ts: "has_key r ''timestamp''" and dr: "is_dict r"
      by (simp_all add: mergeable_def)
    show ?thesis
    proof (cases "lm x")
      case None
      let ?st = "st\<lparr>events := events st @ [r], new_matches := new_matches st @ [r]\<rparr>"
      have ok: "lm_ok lm n0 (events ?st)" using lm_ok_append[OF Cons.prems(3)] by simp
      from Cons.IH[OF mS dS ok] obtain st1 where
        u: "update_events lm S ?st = Inr st1"
        and f: "first_pass lm n0 S (events st @ [r]) (events st1)"
        by auto
      have n0: "n0 \<le> length (events st)" using Cons.prems(3) by (simp add: lm_ok_def)
      have "update_events lm (r # S) st = Inr st1" using u Some None hx by simp
      with first_pass_new[OF Some None n0 f] show ?thesis by blast
    next
      case (Some i)
      note lmx = Some
      from merge_ok[OF ts, of "events st ! i"] obtain m c where
        mg: "update_match_odds (events st ! i) r = Inr (m, c)" by blast
      have idm: "id_of m = id_of (events st ! i)" by (rule merge_id[OF mg])
      have idi: "id_of (events st ! i) = id_of r"
        using Cons.prems(3) lmx \<open>id_of r = Some x\<close> by (simp add: lm_ok_def)
      have ag: "agrees m r" by (rule merge_agrees[OF dr mg idi])
      let ?st = "st\<lparr>events := (events st)[i := m],
                     changed_matches := (if c then changed_matches st @ [i]
                                         else changed_matches st)\<rparr>"
      have ok: "lm_ok lm n0 (events ?st)" using lm_ok_update[OF Cons.prems(3) idm] by simp
      from Cons.IH[OF mS dS ok] obtain st1 where
        u: "update_events lm S ?st = Inr st1"
        and f: "first_pass lm n0 S ((events st)[i := m]) (events st1)"
        by auto
      have "update_events lm (r # S) st = Inr st1"
        using u \<open>id_of r = Some x\<close> lmx hx mg by simp
      with first_pass_merge[OF \<open>id_of r = Some x\<close> lmx Cons.prems(3) nx idm ag f]
      show ?thesis by blast
    qed
  qed
qed

lemma distinct_match_ids_filter:
  "distinct (match_ids S) \<Longrightarrow> distinct (match_ids (filter P S))"
  by (induction S) (auto simp: match_ids_Cons match_ids_Nil in_match_ids split: option.splits)

lemma keyed_cong: "id_of a = id_of b \<Longrightarrow> keyed a = keyed b"
  by (simp add: keyed_def)

lemma mergeable_keyed: "mergeable r \<Longrightarrow> keyed r"
  by (auto simp: mergeable_def keyed_def split: option.splits)

lemma index_map_ok:
  "lm_ok (index_map 0 stored Map.empty) (length stored) stored"
proof -
  have "j < length stored \<and> id_of (stored ! j) = Some x"
    if "index_map 0 stored Map.empty x = Some j" for x j
    using index_map_range[OF that] by simp
  then show ?thesis by (simp add: lm_ok_def)
qed

text \<open>
  C2 as the claim states it: for every store and every snapshot, a second reconciliation of
  the same snapshot reports nothing updated. The stored match below has the odds 1.5; the
  snapshot has two records with its id, with the odds 1.5 and 1.6. The first pass leaves
  1.6 in the store. The second pass writes 1.5 and then 1.6 again, and puts the match on
  the list of changed matches twice; the store is the same as after the first pass.
\<close>

theorem C2_duplicate_ids_update_again:
  "reconcile
     [[(''match_id'', PStr ''x''), (''timestamp'', PStr ''t0''), (''odd_1'', PStr ''1.5'')]]
     [[(''match_id'', PStr ''x''), (''timestamp'', PStr ''t1''), (''odd_1'', PStr ''1.5'')],
      [(''match_id'', PStr ''x''), (''timestamp'', PStr ''t1''), (''odd_1'', PStr ''1.6'')]]
   = Inr \<lparr>events =
            [[(''match_id'', PStr ''x''), (''timestamp'', PStr ''t1''), (''odd_1'', PStr ''1.6'')]],
          new_matches = [], changed_matches = [0]\<rparr>
   \<and> reconcile
     [[(''match_id'', PStr ''x''), (''timestamp'', PStr ''t1''), (''odd_1'', PStr ''1.6'')]]
     [[(''match_id'', PStr ''x''), (''timestamp'', PStr ''t1''), (''odd_1'', PStr ''1.5'')],
      [(''match_id'', PStr ''x''), (''timestamp'', PStr ''t1''), (''odd_1'', PStr ''1.6'')]]
   = Inr \<lparr>events =
            [[(''match_id'', PStr ''x''), (''timestamp'', PStr ''t1''), (''odd_1'', PStr ''1.6'')]],
          new_matches = [], changed_matches = [0, 0]\<rparr>"
  by code_simp

text \<open>
  C2, amended. Let the ids in the store be hashable, let every record of the snapshot be a
  dict that, when it has an id, has a hashable id and a time stamp, and let no two records
  of the snapshot have the same id. Then the reconciliation returns, and reconciling the same
  snapshot with the resulting store returns with no new match, no changed match and the
  store as it was, every dict with its keys in the same order.
\<close>

theorem C2_reconcile_twice_distinct_ids:
  assumes "list_all keyed stored" and "list_all mergeable parsed"
    and "distinct (match_ids parsed)"
  shows "\<exists>st1. reconcile stored parsed = Inr st1
           \<and> reconcile (events st1) parsed
               = Inr \<lparr>events = events st1, new_matches = [], changed_matches = []\<rparr>"
proof -
  let ?lm0 = "index_map 0 stored Map.empty"
  let ?n0 = "length stored"
  let ?st0 = "\<lparr>events = stored, new_matches = [], changed_matches = []\<rparr>"
  let ?C = "filter (is_new ?lm0) parsed"
  have bm0: "build_map 0 stored Map.empty = Inr ?lm0"
    by (rule build_map_index_map[OF assms(1)])
  have ok0: "lm_ok ?lm0 ?n0 (events ?st0)" using index_map_ok[of stored] by simp
  from update_events_first[OF assms(2,3) ok0] obtain st1 where
    u1: "update_events ?lm0 parsed ?st0 = Inr st1"
    and fp: "first_pass ?lm0 ?n0 parsed stored (events st1)" by auto
  have r1: "reconcile stored parsed = Inr st1" by (simp add: reconcile_def bm0 u1)
  let ?ev1 = "events st1"
  let ?A = "take ?n0 ?ev1"
  from fp have
    p1: "drop ?n0 ?ev1 = ?C" and
    p2: "?n0 \<le> length ?ev1" and
    p3: "\<forall>i<?n0. id_of (?ev1 ! i) = id_of (stored ! i)" and
    p4: "\<forall>r\<in>set parsed. \<forall>x i. id_of r = Some x \<longrightarrow> ?lm0 x = Some i \<longrightarrow> agrees (?ev1 ! i) r"
    by (simp_all add: first_pass_def)
  have split: "?ev1 = ?A @ ?C" using p1 append_take_drop_id[of ?n0 ?ev1] by simp
  have lenA: "length ?A = ?n0" using p2 by simp
  have idsA: "map (\<lambda>m. id_of m) ?A = map (\<lambda>m. id_of m) stored"
    by (rule nth_equalityI) (use lenA p3 in simp_all)
  have keyedA: "list_all keyed ?A"
  proof -
    have "keyed (?A ! i)" if "i < length ?A" for i
    proof -
      from that lenA have i: "i < ?n0" by simp
      then have "id_of (?A ! i) = id_of (stored ! i)" using p3 by simp
      moreover have "keyed (stored ! i)" using assms(1) i by (simp add: list_all_length)
      ultimately show ?thesis using keyed_cong by blast
    qed
    then show ?thesis by (simp add: list_all_length)
  qed
  have keyedC: "list_all keyed ?C"
    using assms(2) by (auto simp: list_all_iff intro: mergeable_keyed)
  have keyed1: "list_all keyed ?ev1" by (subst split) (simp add: keyedA keyedC)
  let ?lm1 = "index_map 0 ?ev1 Map.empty"
  have bm1: "build_map 0 ?ev1 Map.empty = Inr ?lm1"
    by (rule build_map_index_map[OF keyed1])
  have lm1: "?lm1 = index_map ?n0 ?C ?lm0"
  proof -
    have "?lm1 = index_map 0 (?A @ ?C) Map.empty" using split by simp
    also have "\<dots> = index_map ?n0 ?C (index_map 0 ?A Map.empty)"
      using p2 by (simp add: index_map_append min_absorb2)
    also have "index_map 0 ?A Map.empty = ?lm0" by (rule index_map_ids[OF idsA])
    finally show ?thesis .
  qed
  have dC: "distinct (match_ids ?C)" by (rule distinct_match_ids_filter[OF assms(3)])
  have settled: "settled ?lm1 ?ev1 r" if r: "r \<in> set parsed" for r
  proof (cases "id_of r")
    case None
    then show ?thesis by (simp add: settled_def)
  next
    case (Some x)
    from assms(2) r have mr: "mergeable r" by (simp add: list_all_iff)
    with Some have hx: "hashable x" and ts: "has_key r ''timestamp''" and dr: "is_dict r"
      by (simp_all add: mergeable_def)
    show ?thesis
    proof (cases "?lm0 x")
      case None
      with Some r have "r \<in> set ?C" by (simp add: is_new_def)
      then obtain j where j: "j < length ?C" and cj: "?C ! j = r"
        unfolding in_set_conv_nth by blast
      have "?lm1 x = Some (?n0 + j)"
        unfolding lm1 using index_map_at[OF dC j, of x] cj Some by simp
      moreover have "?ev1 ! (?n0 + j) = r"
        using cj lenA by (subst split) (simp add: nth_append)
      moreover have "?n0 + j < length ?ev1" using j lenA by (subst split) simp
      ultimately show ?thesis
        using Some hx ts agrees_self[OF dr] by (simp add: settled_def)
    next
      case (Some i)
      note lmx = Some
      have "x \<notin> set (match_ids ?C)"
      proof
        assume "x \<in> set (match_ids ?C)"
        then obtain m where "m \<in> set ?C" and "id_of m = Some x" by (auto simp: in_match_ids)
        then have "?lm0 x = None" by (simp add: is_new_def)
        with lmx show False by simp
      qed
      then have l1: "?lm1 x = Some i" unfolding lm1 by (simp add: index_map_notin lmx)
      from index_map_range[OF lmx] have "i < ?n0" by simp
      with p2 have il: "i < length ?ev1" by simp
      from p4 r \<open>id_of r = Some x\<close> lmx have "agrees (?ev1 ! i) r" by blast
      then show ?thesis using \<open>id_of r = Some x\<close> hx ts l1 il by (simp add: settled_def)
    qed
  qed
  let ?st = "\<lparr>events = ?ev1, new_matches = [], changed_matches = []\<rparr>"
  have "list_all (settled ?lm1 (events ?st)) parsed" using settled by (simp add: list_all_iff)
  from update_events_settled[OF this]
  have "reconcile ?ev1 parsed = Inr ?st" by (simp add: reconcile_def bm1)
  with r1 show ?thesis by blast
qed

theorem C2_reconcile_twice_distinct_ids_witness:
  "list_all keyed
     [[(''match_id'', PStr ''x''), (''timestamp'', PStr ''t0''), (''odd_1'', PStr ''1.5'')]]
   \<and> list_all mergeable
     [[(''match_id'', PStr ''x''), (''timestamp'', PStr ''t1''), (''odd_1'', PStr ''1.6'')],
      [(''match_id'', PStr ''y''), (''timestamp'', PStr ''t1''), (''score'', PStr ''0 - 0'')]]
   \<and> distinct (match_ids
     [[(''match_id'', PStr ''x''), (''timestamp'', PStr ''t1''), (''odd_1'', PStr ''1.6'')],
      [(''match_id'', PStr ''y''), (''timestamp'', PStr ''t1''), (''score'', PStr ''0 - 0'')]])
   \<and> (\<exists>st1. reconcile
        [[(''match_id'', PStr ''x''), (''timestamp'', PStr ''t0''), (''odd_1'', PStr ''1.5'')]]
        [[(''match_id'', PStr ''x''), (''timestamp'', PStr ''t1''), (''odd_1'', PStr ''1.6'')],
         [(''match_id'', PStr ''y''), (''timestamp'', PStr ''t1''), (''score'', PStr ''0 - 0'')]]
        = Inr st1
      \<and> reconcile (events st1)
        [[(''match_id'', PStr ''x''), (''timestamp'', PStr ''t1''), (''odd_1'', PStr ''1.6'')],
         [(''match_id'', PStr ''y''), (''timestamp'', PStr ''t1''), (''score'', PStr ''0 - 0'')]]
        = Inr \<lparr>events = events st1, new_matches = [], changed_matches = []\<rparr>)"
proof -
  let ?stored =
    "[[(''match_id'', PStr ''x''), (''timestamp'', PStr ''t0''), (''odd_1'', PStr ''1.5'')]]"
  let ?parsed =
    "[[(''match_id'', PStr ''x''), (''timestamp'', PStr ''t1''), (''odd_1'', PStr ''1.6'')],
      [(''match_id'', PStr ''y''), (''timestamp'', PStr ''t1''), (''score'', PStr ''0 - 0'')]]"
  have a: "list_all keyed ?stored" by (simp add: keyed_def)
  have b: "list_all mergeable ?parsed" by (simp add: mergeable_def is_dict_def has_key_def)
  have c: "distinct (match_ids ?parsed)" by (simp add: match_ids_def map_filter_simps)
  from C2_reconcile_twice_distinct_ids[OF a b c] a b c show ?thesis by blast
qed

lemma match_ids_append: "match_ids (xs @ ys) = match_ids xs @ match_ids ys"
  by (induction xs) (simp_all add: match_ids_Cons match_ids_Nil split: option.splits)

lemma match_ids_cong:
  "map (\<lambda>m. id_of m) ms = map (\<lambda>m. id_of m) ms' \<Longrightarrow> match_ids ms = match_ids ms'"
proof (induction ms arbitrary: ms')
  case Nil
  then show ?case by simp
next
  case (Cons m ms)
  then obtain m' rest where ms': "ms' = m' # rest" by (cases ms') auto
  with Cons.prems have h: "id_of m = id_of m'" and t: "map (\<lambda>m. id_of m) ms = map (\<lambda>m. id_of m) rest"
    by simp_all
  show ?case by (simp add: ms' match_ids_Cons h Cons.IH[OF t] split: option.splits)
qed

lemma index_map_None:
  "index_map n ms mp x = None \<longleftrightarrow> mp x = None \<and> x \<notin> set (match_ids ms)"
  by (induction ms arbitrary: n mp) (auto simp: match_ids_Cons match_ids_Nil split: option.splits)

text \<open>
  A snapshot whose ids are pairwise distinct keeps a store with one match per id that way:
  the stored matches keep their ids, and the appended records have ids that are new and
  differ from each other.
\<close>

lemma reconcile_keeps_one_entity_per_id:
  assumes "one_entity_per_id stored" and "list_all keyed stored"
    and "list_all mergeable parsed" and "distinct (match_ids parsed)"
  shows "\<exists>st1. reconcile stored parsed = Inr st1 \<and> one_entity_per_id (events st1)"
proof -
  let ?lm0 = "index_map 0 stored Map.empty"
  let ?n0 = "length stored"
  let ?st0 = "\<lparr>events = stored, new_matches = [], changed_matches = []\<rparr>"
  let ?C = "filter (is_new ?lm0) parsed"
  have bm0: "build_map 0 stored Map.empty = Inr ?lm0"
    by (rule build_map_index_map[OF assms(2)])
  have ok0: "lm_ok ?lm0 ?n0 (events ?st0)" using index_map_ok[of stored] by simp
  from update_events_first[OF assms(3,4) ok0] obtain st1 where
    u1: "update_events ?lm0 parsed ?st0 = Inr st1"
    and fp: "first_pass ?lm0 ?n0 parsed stored (events st1)" by auto
  have r1: "reconcile stored parsed = Inr st1" by (simp add: reconcile_def bm0 u1)
  let ?ev1 = "events st1"
  let ?A = "take ?n0 ?ev1"
  from fp have
    p1: "drop ?n0 ?ev1 = ?C" and
    p2: "?n0 \<le> length ?ev1" and
    p3: "\<forall>i<?n0. id_of (?ev1 ! i) = id_of (stored ! i)"
    by (simp_all add: first_pass_def)
  have split: "?ev1 = ?A @ ?C" using p1 append_take_drop_id[of ?n0 ?ev1] by simp
  have lenA: "length ?A = ?n0" using p2 by simp
  have idsA: "map (\<lambda>m. id_of m) ?A = map (\<lambda>m. id_of m) stored"
    by (rule nth_equalityI) (use lenA p3 in simp_all)
  have a: "match_ids ?A = match_ids stored" by (rule match_ids_cong[OF idsA])
  have dC: "distinct (match_ids ?C)" by (rule distinct_match_ids_filter[OF assms(4)])
  have disj: "set (match_ids stored) \<inter> set (match_ids ?C) = {}"
  proof (rule ccontr)
    assume "set (match_ids stored) \<inter> set (match_ids ?C) \<noteq> {}"
    then obtain x where xs: "x \<in> set (match_ids stored)" and xc: "x \<in> set (match_ids ?C)"
      by blast
    from xc obtain m where "m \<in> set ?C" and "id_of m = Some x" by (auto simp: in_match_ids)
    then have "?lm0 x = None" by (simp add: is_new_def)
    with xs show False by (simp add: index_map_None)
  qed
  have "match_ids ?ev1 = match_ids stored @ match_ids ?C"
    by (subst split) (simp add: match_ids_append a)
  then have "one_entity_per_id ?ev1"
    using assms(1) dC disj by (simp add: one_entity_per_id_def)
  with r1 show ?thesis by blast
qed


text \<open>
  C4. The claim: a store with at most one match per id has at most one match per id after
  a reconciliation, also when the snapshot has two new records with the same id. The loop
  looks a new record up in \<open>live_map\<close>, which was built before the loop, and appends it when
  its id is not there; the id of an appended record is not entered. Two new records with
  one id are both appended.
\<close>

theorem C4_two_new_records_same_id_both_stored:
  "one_entity_per_id
     [[(''match_id'', PStr ''a''), (''timestamp'', PStr ''t0''), (''start_time'', PStr ''09:00'')]]
   \<and> reconcile
     [[(''match_id'', PStr ''a''), (''timestamp'', PStr ''t0''), (''start_time'', PStr ''09:00'')]]
     [[(''match_id'', PStr ''x''), (''timestamp'', PStr ''t1''), (''start_time'', PStr ''10:00'')],
      [(''match_id'', PStr ''x''), (''timestamp'', PStr ''t1''), (''start_time'', PStr ''18:00'')]]
   = Inr \<lparr>events =
            [[(''match_id'', PStr ''a''), (''timestamp'', PStr ''t0''), (''start_time'', PStr ''09:00'')],
             [(''match_id'', PStr ''x''), (''timestamp'', PStr ''t1''), (''start_time'', PStr ''10:00'')],
             [(''match_id'', PStr ''x''), (''timestamp'', PStr ''t1''), (''start_time'', PStr ''18:00'')]],
          new_matches =
            [[(''match_id'', PStr ''x''), (''timestamp'', PStr ''t1''), (''start_time'', PStr ''10:00'')],
             [(''match_id'', PStr ''x''), (''timestamp'', PStr ''t1''), (''start_time'', PStr ''18:00'')]],
          changed_matches = []\<rparr>
   \<and> \<not> one_entity_per_id
       [[(''match_id'', PStr ''a''), (''timestamp'', PStr ''t0''), (''start_time'', PStr ''09:00'')],
        [(''match_id'', PStr ''x''), (''timestamp'', PStr ''t1''), (''start_time'', PStr ''10:00'')],
        [(''match_id'', PStr ''x''), (''timestamp'', PStr ''t1''), (''start_time'', PStr ''18:00'')]]"
  by code_simp

lemma update_events_total:
  assumes "list_all mergeable S" and "lm_ok lm n0 (events st)"
  shows "\<exists>st1. update_events lm S st = Inr st1 \<and> lm_ok lm n0 (events st1)
           \<and> (\<forall>i<n0. (\<forall>r\<in>set S. \<forall>y. id_of r = Some y \<longrightarrow> lm y \<noteq> Some i)
                  \<longrightarrow> events st1 ! i = events st ! i)"
  using assms
proof (induction S arbitrary: st)
  case Nil
  then show ?case by simp
next
  case (Cons r S)
  from Cons.prems(1) have mr: "mergeable r" and mS: "list_all mergeable S" by simp_all
  have n0: "n0 \<le> length (events st)" using Cons.prems(2) by (simp add: lm_ok_def)
  show ?case
  proof (cases "id_of r")
    case None
    from Cons.IH[OF mS Cons.prems(2)] obtain st1 where
      u: "update_events lm S st = Inr st1" and ok: "lm_ok lm n0 (events st1)"
      and un: "\<forall>i<n0. (\<forall>r\<in>set S. \<forall>y. id_of r = Some y \<longrightarrow> lm y \<noteq> Some i)
                  \<longrightarrow> events st1 ! i = events st ! i"
      by blast
    have "update_events lm (r # S) st = Inr st1" using u None by simp
    moreover have "\<forall>i<n0. (\<forall>r'\<in>set (r # S). \<forall>y. id_of r' = Some y \<longrightarrow> lm y \<noteq> Some i)
                  \<longrightarrow> events st1 ! i = events st ! i"
      using un by simp
    ultimately show ?thesis using ok by blast
  next
    case (Some x)
    from mr Some have hx: "hashable x" and ts: "has_key r ''timestamp''"
      by (simp_all add: mergeable_def)
    show ?thesis
    proof (cases "lm x")
      case None
      let ?st = "st\<lparr>events := events st @ [r], new_matches := new_matches st @ [r]\<rparr>"
      have ok': "lm_ok lm n0 (events ?st)" using lm_ok_append[OF Cons.prems(2)] by simp
      from Cons.IH[OF mS ok'] obtain st1 where
        u: "update_events lm S ?st = Inr st1" and ok: "lm_ok lm n0 (events st1)"
        and un: "\<forall>i<n0. (\<forall>r\<in>set S. \<forall>y. id_of r = Some y \<longrightarrow> lm y \<noteq> Some i)
                  \<longrightarrow> events st1 ! i = (events st @ [r]) ! i"
        by auto
      have "update_events lm (r # S) st = Inr st1" using u Some None hx by simp
      moreover have "\<forall>i<n0. (\<forall>r'\<in>set (r # S). \<forall>y. id_of r' = Some y \<longrightarrow> lm y \<noteq> Some i)
                  \<longrightarrow> events st1 ! i = events st ! i"
        using un n0 by (simp add: nth_append)
      ultimately show ?thesis using ok by blast
    next
      case (Some i)
      note lmx = Some
      from merge_ok[OF ts, of "events st ! i"] obtain m c where
        mg: "update_match_odds (events st ! i) r = Inr (m, c)" by blast
      have idm: "id_of m = id_of (events st ! i)" by (rule merge_id[OF mg])
      let ?st = "st\<lparr>events := (events st)[i := m],
                     changed_matches := (if c then changed_matches st @ [i]
                                         else changed_matches st)\<rparr>"
      have ok': "lm_ok lm n0 (events ?st)" using lm_ok_update[OF Cons.prems(2) idm] by simp
      from Cons.IH[OF mS ok'] obtain st1 where
        u: "update_events lm S ?st = Inr st1" and ok: "lm_ok lm n0 (events st1)"
        and un: "\<forall>j<n0. (\<forall>r\<in>set S. \<forall>y. id_of r = Some y \<longrightarrow> lm y \<noteq> Some j)
                  \<longrightarrow> events st1 ! j = ((events st)[i := m]) ! j"
        by auto
      have "update_events lm (r # S) st = Inr st1"
        using u \<open>id_of r = Some x\<close> lmx hx mg by simp
      moreover have "\<forall>j<n0. (\<forall>r'\<in>set (r # S). \<forall>y. id_of r' = Some y \<longrightarrow> lm y \<noteq> Some j)
                  \<longrightarrow> events st1 ! j = events st ! j"
      proof (intro allI impI)
        fix j assume j: "j < n0"
          and nt: "\<forall>r'\<in>set (r # S). \<forall>y. id_of r' = Some y \<longrightarrow> lm y \<noteq> Some j"
        from nt \<open>id_of r = Some x\<close> lmx have ne: "j \<noteq> i" by auto
        from nt have "\<forall>r'\<in>set S. \<forall>y. id_of r' = Some y \<longrightarrow> lm y \<noteq> Some j" by simp
        with un j have "events st1 ! j = ((events st)[i := m]) ! j" by blast
        with ne show "events st1 ! j = events st ! j" by simp
      qed
      ultimately show ?thesis using ok by blast
    qed
  qed
qed

lemma update_events_append:
  "update_events lm (S1 @ S2) st =
     (case update_events lm S1 st of Inl e \<Rightarrow> Inl e | Inr st' \<Rightarrow> update_events lm S2 st')"
  by (induction S1 arbitrary: st) (simp_all split: option.splits sum.splits prod.splits)

text \<open>
  For an id that the store already has, the last record of the snapshot with that id wins:
  the stored match that \<open>live_map\<close> holds for the id ends with every value of that record.
\<close>

lemma later_record_wins_for_stored_id:
  assumes "list_all keyed stored" and "list_all mergeable (S1 @ r # S2)"
    and "id_of r = Some x" and "x \<in> set (match_ids stored)" and "x \<notin> set (match_ids S2)"
  shows "\<exists>st1 i. reconcile stored (S1 @ r # S2) = Inr st1 \<and> i < length stored
           \<and> id_of (stored ! i) = Some x \<and> agrees (events st1 ! i) r"
proof -
  let ?lm = "index_map 0 stored Map.empty"
  let ?n0 = "length stored"
  let ?st0 = "\<lparr>events = stored, new_matches = [], changed_matches = []\<rparr>"
  have bm0: "build_map 0 stored Map.empty = Inr ?lm"
    by (rule build_map_index_map[OF assms(1)])
  have ok0: "lm_ok ?lm ?n0 (events ?st0)" using index_map_ok[of stored] by simp
  from assms(2) have m1: "list_all mergeable S1" and mr: "mergeable r"
    and m2: "list_all mergeable S2" by simp_all
  from assms(4) obtain i where lmx: "?lm x = Some i"
    using index_map_None[of 0 stored Map.empty x] by auto
  from index_map_range[OF lmx] have i: "i < ?n0" and idi: "id_of (stored ! i) = Some x"
    by simp_all
  from update_events_total[OF m1 ok0] obtain sa where
    ua: "update_events ?lm S1 ?st0 = Inr sa" and oka: "lm_ok ?lm ?n0 (events sa)" by blast
  from mr assms(3) have hx: "hashable x" and ts: "has_key r ''timestamp''" and dr: "is_dict r"
    by (simp_all add: mergeable_def)
  from merge_ok[OF ts, of "events sa ! i"] obtain m c where
    mg: "update_match_odds (events sa ! i) r = Inr (m, c)" by blast
  have idm: "id_of m = id_of (events sa ! i)" by (rule merge_id[OF mg])
  have ida: "id_of (events sa ! i) = id_of r" using oka lmx assms(3) by (simp add: lm_ok_def)
  have ag: "agrees m r" by (rule merge_agrees[OF dr mg ida])
  let ?sb = "sa\<lparr>events := (events sa)[i := m],
                  changed_matches := (if c then changed_matches sa @ [i]
                                      else changed_matches sa)\<rparr>"
  have okb: "lm_ok ?lm ?n0 (events ?sb)" using lm_ok_update[OF oka idm] by simp
  from update_events_total[OF m2 okb] obtain st1 where
    u2: "update_events ?lm S2 ?sb = Inr st1"
    and un: "\<forall>j<?n0. (\<forall>r'\<in>set S2. \<forall>y. id_of r' = Some y \<longrightarrow> ?lm y \<noteq> Some j)
                  \<longrightarrow> events st1 ! j = events ?sb ! j"
    by blast
  have none: "\<forall>r'\<in>set S2. \<forall>y. id_of r' = Some y \<longrightarrow> ?lm y \<noteq> Some i"
  proof (intro ballI allI impI)
    fix r' y assume r': "r' \<in> set S2" and y: "id_of r' = Some y"
    show "?lm y \<noteq> Some i"
    proof
      assume "?lm y = Some i"
      from index_map_range[OF this] idi have "y = x" by simp
      with r' y have "x \<in> set (match_ids S2)" by (auto simp: in_match_ids)
      with assms(5) show False by simp
    qed
  qed
  have la: "i < length (events sa)" using oka i by (simp add: lm_ok_def)
  have "events st1 ! i = events ?sb ! i" using un i none by blast
  then have here: "events st1 ! i = m" using la by simp
  have "update_events ?lm (r # S2) sa = Inr st1" using u2 assms(3) lmx hx mg by simp
  then have "update_events ?lm (S1 @ r # S2) ?st0 = Inr st1"
    by (simp add: update_events_append ua)
  then have "reconcile stored (S1 @ r # S2) = Inr st1" by (simp add: reconcile_def bm0)
  with i idi ag here show ?thesis by auto
qed

text \<open>
  C5. The claim: of two records of one snapshot with the same id the later one wins, and
  the one resulting match has its values. For an id that is new to the store both records
  are stored, the earlier one with its own values; in the next cycle \<open>live_map\<close> holds the
  later of the two, so that only this one is updated and the earlier one stays as it is.
\<close>

theorem C5_new_duplicate_keeps_earlier_record:
  "reconcile []
     [[(''match_id'', PStr ''x''), (''timestamp'', PStr ''t1''), (''score'', PStr ''0 - 0'')],
      [(''match_id'', PStr ''x''), (''timestamp'', PStr ''t1''), (''score'', PStr ''1 - 0'')]]
   = Inr \<lparr>events =
            [[(''match_id'', PStr ''x''), (''timestamp'', PStr ''t1''), (''score'', PStr ''0 - 0'')],
             [(''match_id'', PStr ''x''), (''timestamp'', PStr ''t1''), (''score'', PStr ''1 - 0'')]],
          new_matches =
            [[(''match_id'', PStr ''x''), (''timestamp'', PStr ''t1''), (''score'', PStr ''0 - 0'')],
             [(''match_id'', PStr ''x''), (''timestamp'', PStr ''t1''), (''score'', PStr ''1 - 0'')]],
          changed_matches = []\<rparr>
   \<and> reconcile
     [[(''match_id'', PStr ''x''), (''timestamp'', PStr ''t1''), (''score'', PStr ''0 - 0'')],
      [(''match_id'', PStr ''x''), (''timestamp'', PStr ''t1''), (''score'', PStr ''1 - 0'')]]
     [[(''match_id'', PStr ''x''), (''timestamp'', PStr ''t2''), (''score'', PStr ''2 - 0'')]]
   = Inr \<lparr>events =
            [[(''match_id'', PStr ''x''), (''timestamp'', PStr ''t1''), (''score'', PStr ''0 - 0'')],
             [(''match_id'', PStr ''x''), (''timestamp'', PStr ''t2''), (''score'', PStr ''2 - 0'')]],
          new_matches = [], changed_matches = [1]\<rparr>"
  by code_simp

subsection \<open>Retention\<close>

lemma trim_events_filter:
  "timestamps_are_strings ms \<Longrightarrow>
   trim_events cutoff_str ms = Inr (filter (\<lambda>m. \<not> at_or_before_cutoff cutoff_str m) ms)"
proof (induction ms)
  case Nil
  then show ?case by simp
next
  case (Cons m ms)
  from Cons.prems have rest: "timestamps_are_strings ms"
    by (simp add: timestamps_are_strings_def)
  from Cons.prems have here: "is_recent cutoff_str m = Inr (\<not> at_or_before_cutoff cutoff_str m)"
    by (auto simp: timestamps_are_strings_def is_recent_def at_or_before_cutoff_def
          split: option.splits pyval.splits)
  show ?case by (simp add: here Cons.IH[OF rest])
qed

text \<open>
  C6 as the claim states it: a match whose time stamp equals the cutoff is retained. The
  comparison is \<open>m['timestamp'] > cutoff_str\<close>, so such a match is dropped.
\<close>

theorem C6_entity_at_cutoff_removed:
  "cleanup_old_data ''2024-01-01 10:00:00''
     \<lparr>live_events = [[(''match_id'', PStr ''x''), (''timestamp'', PStr ''2024-01-01 10:00:00'')]],
      upcoming_events = []\<rparr>
   = (\<lparr>live_events = [], upcoming_events = []\<rparr>, None)"
  by code_simp

text \<open>
  C6, amended. On lists whose time stamps are strings, \<open>cleanup_old_data\<close> returns without an
  exception and removes from both lists exactly the matches whose time stamp is at or
  before the cutoff; the matches with a later time stamp and the matches without one stay,
  in their order.
\<close>

theorem C6_trim_removes_at_or_before_cutoff:
  assumes "timestamps_are_strings (live_events s)"
    and "timestamps_are_strings (upcoming_events s)"
  shows "cleanup_old_data cutoff_str s =
           (\<lparr>live_events = filter (\<lambda>m. \<not> at_or_before_cutoff cutoff_str m) (live_events s),
             upcoming_events =
               filter (\<lambda>m. \<not> at_or_before_cutoff cutoff_str m) (upcoming_events s)\<rparr>, None)"
  using assms by (cases s) (simp add: cleanup_old_data_def Let_def trim_events_filter)

theorem C6_trim_removes_at_or_before_cutoff_witness:
  "timestamps_are_strings
     [[(''match_id'', PStr ''a''), (''timestamp'', PStr ''2024-01-01 09:59:59'')],
      [(''match_id'', PStr ''b''), (''timestamp'', PStr ''2024-01-01 10:00:00'')],
      [(''match_id'', PStr ''c''), (''timestamp'', PStr ''2024-01-01 10:00:01'')],
      [(''match_id'', PStr ''d'')]]
   \<and> timestamps_are_strings []
   \<and> cleanup_old_data ''2024-01-01 10:00:00''
       \<lparr>live_events =
          [[(''match_id'', PStr ''a''), (''timestamp'', PStr ''2024-01-01 09:59:59'')],
           [(''match_id'', PStr ''b''), (''timestamp'', PStr ''2024-01-01 10:00:00'')],
           [(''match_id'', PStr ''c''), (''timestamp'', PStr ''2024-01-01 10:00:01'')],
           [(''match_id'', PStr ''d'')]],
        upcoming_events = []\<rparr>
     = (\<lparr>live_events =
          [[(''match_id'', PStr ''c''), (''timestamp'', PStr ''2024-01-01 10:00:01'')],
           [(''match_id'', PStr ''d'')]],
         upcoming_events = []\<rparr>, None)"
proof -
  let ?live = "[[(''match_id'', PStr ''a''), (''timestamp'', PStr ''2024-01-01 09:59:59'')],
      [(''match_id'', PStr ''b''), (''timestamp'', PStr ''2024-01-01 10:00:00'')],
      [(''match_id'', PStr ''c''), (''timestamp'', PStr ''2024-01-01 10:00:01'')],
      [(''match_id'', PStr ''d'')]]"
  have a: "timestamps_are_strings (live_events \<lparr>live_events = ?live, upcoming_events = []\<rparr>)"
    by (simp add: timestamps_are_strings_def)
  have b: "timestamps_are_strings (upcoming_events \<lparr>live_events = ?live, upcoming_events = []\<rparr>)"
    by (simp add: timestamps_are_strings_def)
  have f: "filter (\<lambda>m. \<not> at_or_before_cutoff ''2024-01-01 10:00:00'' m) ?live
      = [[(''match_id'', PStr ''c''), (''timestamp'', PStr ''2024-01-01 10:00:01'')],
           [(''match_id'', PStr ''d'')]]"
    by (simp add: at_or_before_cutoff_def)
  from C6_trim_removes_at_or_before_cutoff[OF a b, of "''2024-01-01 10:00:00''"] a b f
  show ?thesis by simp
qed

subsection \<open>Match ids\<close>

lemma team_names_SomeD:
  "team_names el = Some (t1, t2) \<Longrightarrow> \<exists>rest. team_texts el = Some (t1 # t2 # rest)"
  by (auto simp: team_names_def split: option.splits list.splits)

lemma team_names_NoneD:
  "team_names el = None \<Longrightarrow>
   team_texts el = None \<or> (\<exists>ts. team_texts el = Some ts \<and> length ts < 2)"
  by (auto simp: team_names_def split: option.splits list.splits)

lemma live_id_teams:
  assumes "team_names el = Some (t1, t2)"
  shows "map_of (live_match_data sport_name country league_name league_url now el i) ''match_id''
         = Some (PStr (sport_name @ ''_'' @ league_name @ ''_'' @ t1 @ ''_'' @ t2))"
proof -
  from team_names_SomeD[OF assms] obtain rest where "team_texts el = Some (t1 # t2 # rest)" ..
  then show ?thesis
    by (simp add: live_match_data_def add_teams_def add_match_id_def Let_def map_of_set_item
          split: option.splits)
qed

lemma upcoming_id_teams:
  assumes "team_names el = Some (t1, t2)"
  shows "map_of (upcoming_match_data sport_name country league_name league_url d now el i) ''match_id''
         = Some (PStr (sport_name @ ''_'' @ league_name @ ''_'' @ t1 @ ''_'' @ t2))"
proof -
  from team_names_SomeD[OF assms] obtain rest where "team_texts el = Some (t1 # t2 # rest)" ..
  then show ?thesis
    by (simp add: upcoming_match_data_def add_teams_def add_match_id_def Let_def map_of_set_item
          split: option.splits)
qed

lemma add_teams_none:
  "team_names el = None \<Longrightarrow> add_teams el d = d"
  by (auto simp: add_teams_def dest!: team_names_NoneD)

lemma live_id_fallback:
  assumes "team_names el = None"
  shows "map_of (live_match_data sport_name country league_name league_url now el i) ''match_id''
         = Some (PStr (sport_name @ ''_'' @ league_name @ ''_'' @ str_of_nat i))"
  by (simp add: live_match_data_def add_teams_none[OF assms] add_match_id_def Let_def
        map_of_set_item split: option.splits)

lemma upcoming_id_fallback:
  assumes "team_names el = None"
  shows "map_of (upcoming_match_data sport_name country league_name league_url d now el i) ''match_id''
         = Some (PStr (sport_name @ ''_'' @ league_name @ ''_'' @ str_of_nat i))"
  by (simp add: upcoming_match_data_def add_teams_none[OF assms] add_match_id_def Let_def
        map_of_set_item split: option.splits)


text \<open>
  C9. Two match elements with the same two team names, parsed under the same sport and
  league, get the same \<open>match_id\<close>, whatever the country, the league URL, the time stamps,
  the status, the scores and the position in the list; the id is then made of sport, league
  and the two team names alone. The position enters the id only for an element without
  two team names.
\<close>

theorem C9_match_id_from_identity_fields:
  assumes "team_names el1 = Some (t1, t2)" and "team_names el2 = Some (t1, t2)"
  shows "map_of (live_match_data sport_name c1 league_name u1 now1 el1 i1) ''match_id''
           = map_of (live_match_data sport_name c2 league_name u2 now2 el2 i2) ''match_id''
         \<and> map_of (upcoming_match_data sport_name c1 league_name u1 d1 now1 el1 i1) ''match_id''
           = map_of (upcoming_match_data sport_name c2 league_name u2 d2 now2 el2 i2) ''match_id''
         \<and> map_of (live_match_data sport_name c1 league_name u1 now1 el1 i1) ''match_id''
           = Some (PStr (sport_name @ ''_'' @ league_name @ ''_'' @ t1 @ ''_'' @ t2))
         \<and> map_of (upcoming_match_data sport_name c1 league_name u1 d1 now1 el1 i1) ''match_id''
           = Some (PStr (sport_name @ ''_'' @ league_name @ ''_'' @ t1 @ ''_'' @ t2))
         \<and> (team_names el3 = None \<longrightarrow>
              map_of (live_match_data sport_name c1 league_name u1 now1 el3 i3) ''match_id''
                = Some (PStr (sport_name @ ''_'' @ league_name @ ''_'' @ str_of_nat i3))
              \<and> map_of (upcoming_match_data sport_name c1 league_name u1 d1 now1 el3 i3) ''match_id''
                = Some (PStr (sport_name @ ''_'' @ league_name @ ''_'' @ str_of_nat i3)))"
  by (simp add: live_id_teams[OF assms(1)] live_id_teams[OF assms(2)]
        upcoming_id_teams[OF assms(1)] upcoming_id_teams[OF assms(2)]
        live_id_fallback upcoming_id_fallback)

theorem C9_match_id_from_identity_fields_witness:
  "team_names \<lparr>team_texts = Some [''A'', ''B''], time_text = Some ''45'',
                score_texts = [''1'', ''0'']\<rparr> = Some (''A'', ''B'')
   \<and> team_names \<lparr>team_texts = Some [''A'', ''B'', ''C''], time_text = None,
                score_texts = []\<rparr> = Some (''A'', ''B'')
   \<and> map_of (live_match_data ''Football'' ''in'' ''L'' ''/l'' ''2024-01-01 10:00:00''
                \<lparr>team_texts = Some [''A'', ''B''], time_text = Some ''45'',
                 score_texts = [''1'', ''0'']\<rparr> 3) ''match_id''
       = map_of (live_match_data ''Football'' ''uk'' ''L'' ''/m'' ''2024-01-01 10:02:00''
                \<lparr>team_texts = Some [''A'', ''B'', ''C''], time_text = None,
                 score_texts = []\<rparr> 7) ''match_id''
   \<and> map_of (live_match_data ''Football'' ''in'' ''L'' ''/l'' ''2024-01-01 10:00:00''
                \<lparr>team_texts = Some [''A'', ''B''], time_text = Some ''45'',
                 score_texts = [''1'', ''0'']\<rparr> 3) ''match_id''
       = Some (PStr ''Football_L_A_B'')
   \<and> team_names \<lparr>team_texts = Some [''A''], time_text = None, score_texts = []\<rparr> = None
   \<and> map_of (upcoming_match_data ''Football'' ''in'' ''L'' ''/l'' None ''2024-01-01 10:00:00''
                \<lparr>team_texts = Some [''A''], time_text = None, score_texts = []\<rparr> 12) ''match_id''
       = Some (PStr ''Football_L_12'')"
proof -
  let ?e1 = "\<lparr>team_texts = Some [''A'', ''B''], time_text = Some ''45'',
                score_texts = [''1'', ''0'']\<rparr>"
  let ?e2 = "\<lparr>team_texts = Some [''A'', ''B'', ''C''], time_text = None,
                score_texts = []\<rparr>"
  let ?e3 = "\<lparr>team_texts = Some [''A''], time_text = None, score_texts = []\<rparr>"
  have a: "team_names ?e1 = Some (''A'', ''B'')" by (simp add: team_names_def)
  have b: "team_names ?e2 = Some (''A'', ''B'')" by (simp add: team_names_def)
  have c: "team_names ?e3 = None" by (simp add: team_names_def)
  have n: "str_of_nat 12 = ''12''" by code_simp
  from C9_match_id_from_identity_fields[OF a b, of "''Football''" "''in''" "''L''" "''/l''"
      "''2024-01-01 10:00:00''" 3 "''uk''" "''/m''" "''2024-01-01 10:02:00''" 7 None None ?e3 12]
    a b c n
  show ?thesis by (elim conjE) simp
qed


subsection \<open>Failure counter\<close>

text \<open>
  C1. The claim: on every kind of failed cycle, reaching the threshold of 5 issues one
  driver reset and then clears the counter, so one more failure does not reset again.
  The handler of an exception does so (\<open>handle_exception\<close>); the branch for a page that
  could not be fetched resets the driver and leaves the counter where it is. Six cycles
  without content in a row, from a fresh state: the fifth resets the driver and leaves the
  counter at 5, and the sixth resets the driver a second time.
\<close>

theorem C1_no_content_resets_again:
  "run_cycles (replicate 5 NoContent) (initial_fetch True)
     = \<lparr>consecutive_errors = 5, driver = False, driver_resets = 1\<rparr>
   \<and> run_cycles (replicate 6 NoContent) (initial_fetch True)
     = \<lparr>consecutive_errors = 6, driver = False, driver_resets = 2\<rparr>
   \<and> run_cycles (replicate 5 RaisedEarly) (initial_fetch True)
     = \<lparr>consecutive_errors = 0, driver = False, driver_resets = 1\<rparr>
   \<and> run_cycles (replicate 6 RaisedEarly) (initial_fetch True)
     = \<lparr>consecutive_errors = 1, driver = False, driver_resets = 1\<rparr>"
  by (simp add: eval_nat_numeral initial_fetch_def max_consecutive_errors_def
        restart_driver_def handle_exception_def Let_def)

subsection \<open>Saving nothing\<close>

text \<open>
  C10. Called with an empty list of records, \<open>save_to_csv\<close> and \<open>save_to_json\<close> return
  before any file is touched, whatever the libraries would do and whatever the disk holds; so
  the final save at shutdown leaves the disk as it is when both stores are empty.
\<close>

theorem C10_empty_data_writes_nothing:
  "save_to_csv df_to_csv data_dir [] filename append_mode fs = fs
   \<and> save_to_json json_dump data_dir [] filename fs = fs
   \<and> save_final df_to_csv json_dump data_dir
         \<lparr>live_events = [], upcoming_events = []\<rparr> timestamp fs = fs"
  by (simp add: save_to_csv_def save_to_json_def save_final_def)

text \<open>
  The same on a disk that holds a full-state document and an append log, with libraries
  that would overwrite the file with an empty table or an empty array.
\<close>

theorem C10_empty_data_writes_nothing_witness:
  "save_to_csv (\<lambda>data filepath append_mode header fs. fs(filepath \<mapsto> [])) ''data'' []
       ''1xbet_live_events.csv'' True [''data/1xbet_live_events.csv'' \<mapsto> ''sport,league'']
     = [''data/1xbet_live_events.csv'' \<mapsto> ''sport,league'']
   \<and> save_to_json (\<lambda>data filepath fs. fs(filepath \<mapsto> ''[]'')) ''data'' []
       ''1xbet_live_events.json'' [''data/1xbet_live_events.json'' \<mapsto> ''[{}]'']
     = [''data/1xbet_live_events.json'' \<mapsto> ''[{}]'']
   \<and> save_final (\<lambda>data filepath append_mode header fs. fs(filepath \<mapsto> []))
       (\<lambda>data filepath fs. fs(filepath \<mapsto> ''[]'')) ''data''
       \<lparr>live_events = [], upcoming_events = []\<rparr> ''20240101-0000'' Map.empty
     = Map.empty"
  using C10_empty_data_writes_nothing
    [where df_to_csv = "\<lambda>data filepath append_mode header fs. fs(filepath \<mapsto> [])"
       and data_dir = "''data''" and filename = "''1xbet_live_events.csv''"
       and append_mode = True
       and fs = "[''data/1xbet_live_events.csv'' \<mapsto> ''sport,league'']"]
    C10_empty_data_writes_nothing
    [where json_dump = "\<lambda>data filepath fs. fs(filepath \<mapsto> ''[]'')"
       and data_dir = "''data''" and filename = "''1xbet_live_events.json''"
       and fs = "[''data/1xbet_live_events.json'' \<mapsto> ''[{}]'']"]
    C10_empty_data_writes_nothing
    [where df_to_csv = "\<lambda>data filepath append_mode header fs. fs(filepath \<mapsto> [])"
       and json_dump = "\<lambda>data filepath fs. fs(filepath \<mapsto> ''[]'')"
       and data_dir = "''data''" and timestamp = "''20240101-0000''" and fs = Map.empty]
  by simp

end
